theory Spec2Isabelle
  imports Main
begin

section \<open>Data model of the hybrid tree\<close>

text \<open>
  The C++ types \<open>ll\<close> (long long) and \<open>ui\<close> (unsigned int) are modelled as
  \<open>int\<close> and \<open>nat\<close>. Arithmetic on \<open>ui\<close> counters is written with its
  reduction modulo \<open>2 ^ 32\<close>; the conversion of an \<open>ll\<close> to a \<open>ui\<close> is \<open>ui_of\<close>.
  Addresses are byte addresses.
\<close>

type_synonym ll = int
type_synonym ui = nat
type_synonym addr = int

definition wrap_ui :: "nat \<Rightarrow> ui" where
  "wrap_ui x = x mod 2 ^ 32"

definition ui_of :: "ll \<Rightarrow> ui" where
  "ui_of x = nat (x mod 2 ^ 32)"

text \<open>
  Modelled from the spec: the classes \<open>node::Node\<close>, \<open>node::Branch\<close> and
  \<open>node::Node_SOA\<close> are declared in node/node.h and node/node_soa.h, which are not
  part of the sources at hand. A node is tagged internal or leaf and holds an ordered
  sequence of branches; a branch carries a bounding box, an index and a child reference.
  Only the first \<open>GetBranchCount()\<close> branches of a node are ever touched by the code
  below, so the list holds exactly those. The representation of a bounding box
  is left open (the type variable \<open>'b\<close>), and the overlap test of a box against a
  query is a parameter \<open>ov\<close> of every function that calls \<open>IsOverlap\<close>.
\<close>

datatype NodeType = NODE_TYPE_INTERNAL | NODE_TYPE_LEAF

record 'b Branch =
  branch_index :: ll
  branch_child_offset :: ll
  branch_box :: 'b

record 'b Node =
  node_type :: NodeType
  branches :: "'b Branch list"

record 'b Node_SOA =
  soa_index :: "ll list"
  soa_box :: "'b list"

definition GetNodeType :: "'b Node \<Rightarrow> NodeType" where
  "GetNodeType n = node_type n"

definition GetBranchCount :: "'b Node \<Rightarrow> nat" where
  "GetBranchCount n = length (branches n)"

definition GetBranchIndex :: "'b Node \<Rightarrow> nat \<Rightarrow> ll" where
  "GetBranchIndex n i = branch_index (branches n ! i)"

definition GetBranchChildOffset :: "'b Node \<Rightarrow> nat \<Rightarrow> ll" where
  "GetBranchChildOffset n i = branch_child_offset (branches n ! i)"

definition SetBranchChildOffset :: "'b Node \<Rightarrow> nat \<Rightarrow> ll \<Rightarrow> 'b Node" where
  "SetBranchChildOffset n i v =
     n\<lparr>branches := (branches n)[i := (branches n ! i)\<lparr>branch_child_offset := v\<rparr>]\<rparr>"

definition IsOverlap :: "('b \<Rightarrow> 'p list \<Rightarrow> bool) \<Rightarrow> 'b Node \<Rightarrow> 'p list \<Rightarrow> nat \<Rightarrow> bool" where
  "IsOverlap ov n query i = ov (branch_box (branches n ! i)) query"

definition SOA_GetBranchCount :: "'b Node_SOA \<Rightarrow> nat" where
  "SOA_GetBranchCount n = length (soa_box n)"

definition SOA_IsOverlap ::
  "('b \<Rightarrow> 'p list \<Rightarrow> bool) \<Rightarrow> 'b Node_SOA \<Rightarrow> 'p list \<Rightarrow> nat \<Rightarrow> bool" where
  "SOA_IsOverlap ov n query i = ov (soa_box n ! i) query"

text \<open>
  The fields of a \<open>Hybrid\<close> object that the functions of hybrid.cpp read and write.
  \<open>node_ptr\<close> is the address of the root node; \<open>node_soa_ptr\<close> is the leaf buffer,
  allocated with \<open>leaf_node_count\<close> elements both by \<open>Build\<close> and by \<open>DumpFromFile\<close>.
\<close>

record 'b Hybrid =
  level_node_count :: "ui list"
  total_node_count :: ui
  leaf_node_count :: ui
  node_ptr :: addr
  node_soa_ptr :: "'b Node_SOA list"
  chunk_size :: ui

section \<open>Brute-force scan on the host\<close>

text \<open>
  \<open>Hybrid::Thread_BruteForce\<close>: the two nested loops over the leaf nodes of
  \<open>[start_offset, end_offset)\<close> and over the branches of each node. The pair threaded
  through the loops is the vector \<open>start_node_offset\<close> and the counter \<open>hit\<close>,
  both passed by reference.
\<close>

definition Thread_BruteForce ::
  "('b \<Rightarrow> 'p list \<Rightarrow> bool) \<Rightarrow> 'b Node_SOA list \<Rightarrow> 'p list \<Rightarrow> ll list \<times> ui
     \<Rightarrow> nat \<Rightarrow> nat \<Rightarrow> ll list \<times> ui" where
  "Thread_BruteForce ov soa query out start_offset end_offset =
     foldl (\<lambda>acc node_itr.
        foldl (\<lambda>(start_node_offset, hit) child_itr.
            if SOA_IsOverlap ov (soa ! node_itr) query child_itr
            then (start_node_offset @ [int node_itr], wrap_ui (hit + 1))
            else (start_node_offset, hit))
          acc [0..<SOA_GetBranchCount (soa ! node_itr)])
      out [start_offset..<end_offset]"

text \<open>
  The launch loop of \<open>BruteForceSearchOnCPU\<close>: the first argument counts the
  threads still to be launched; each launch takes the current
  \<open>(start_offset, end_offset)\<close> and then advances both.
\<close>

primrec launch_threads :: "nat \<Rightarrow> nat \<Rightarrow> nat \<Rightarrow> nat \<Rightarrow> (nat \<times> nat) list" where
  "launch_threads 0 chunk start_offset end_offset = []"
| "launch_threads (Suc k) chunk start_offset end_offset =
     (start_offset, end_offset) # launch_threads k chunk end_offset (end_offset + chunk)"

definition thread_ranges :: "nat \<Rightarrow> nat \<Rightarrow> (nat \<times> nat) list" where
  "thread_ranges leaf_count number_of_threads =
     (let chunk = leaf_count div number_of_threads;
          start_offset = 0;
          end_offset = start_offset + chunk + leaf_count mod number_of_threads
      in launch_threads number_of_threads chunk start_offset end_offset)"

text \<open>
  \<open>Hybrid::BruteForceSearchOnCPU\<close>. \<open>number_of_threads\<close> is what
  \<open>std::thread::hardware_concurrency()\<close> returned; when it is 0 the division traps,
  which is the result \<open>None\<close>. The array \<open>thread_hit\<close> is declared without an
  initialiser, so its starting contents are not determined by the program: they are the
  parameter \<open>thread_hit\<close>. The per-thread vectors start empty. The threads write to
  disjoint locations, so running them one after the other gives the same result. The
  function itself returns \<open>true\<close>; the sorted offsets (which it logs) and the local
  \<open>hit\<close> are returned with it.
\<close>

definition BruteForceSearchOnCPU ::
  "('b \<Rightarrow> 'p list \<Rightarrow> bool) \<Rightarrow> nat \<Rightarrow> (nat \<Rightarrow> ui) \<Rightarrow> 'b Hybrid \<Rightarrow> 'p list
     \<Rightarrow> (bool \<times> ll list \<times> ui) option" where
  "BruteForceSearchOnCPU ov number_of_threads thread_hit this query =
     (if number_of_threads = 0 then None
      else
        let ranges = thread_ranges (leaf_node_count this) number_of_threads;
            results = map (\<lambda>(thread_itr, (s, e)).
                         Thread_BruteForce ov (node_soa_ptr this) query
                           ([], thread_hit thread_itr) s e)
                        (zip [0..<number_of_threads] ranges);
            (start_node_offset, hit) =
               foldl (\<lambda>(offs, hit) (t_offs, t_hit). (offs @ t_offs, wrap_ui (hit + t_hit)))
                 ([], 0) results
        in Some (True, sort start_node_offset, hit))"

text \<open>
  The partition as the specification words it: equal shares of
  \<open>leaf_node_count / number_of_threads\<close>, the last thread taking the remainder as
  well. It is compared with \<open>thread_ranges\<close> below.
\<close>

definition spec_thread_ranges :: "nat \<Rightarrow> nat \<Rightarrow> (nat \<times> nat) list" where
  "spec_thread_ranges leaf_count number_of_threads =
     map (\<lambda>i. (i * (leaf_count div number_of_threads),
               if Suc i = number_of_threads then leaf_count
               else Suc i * (leaf_count div number_of_threads)))
       [0..<number_of_threads]"

section \<open>Leaf scan on the device\<close>

text \<open>
  Modelled from the spec: the macro \<open>ParallelReduction\<close> (common/macro.h, not part of
  the sources at hand) together with the master thread's read-out of its result,
  \<open>t_hit[0]\<close> or \<open>t_hit[0] + t_hit[1]\<close> depending on the macro's variable \<open>N\<close>:
  "a parallel reduction folds that array down to one hit count per group per
  invocation".
\<close>

definition ParallelReduction :: "ui list \<Rightarrow> ui" where
  "ParallelReduction t_hit = wrap_ui (sum_list t_hit)"

text \<open>
  The kernel copies the query into shared memory with the threads
  \<open>tid < GetNumberOfDims()*2\<close>; a block of fewer threads leaves the remaining entries
  as they were (\<open>junk\<close>).
\<close>

definition shared_query :: "nat \<Rightarrow> (nat \<Rightarrow> 'p) \<Rightarrow> 'p list \<Rightarrow> 'p list" where
  "shared_query number_of_threads junk query =
     map (\<lambda>tid. if tid < number_of_threads then query ! tid else junk tid) [0..<length query]"

definition leaf_at :: "'b Node_SOA list \<Rightarrow> int \<Rightarrow> 'b Node_SOA option" where
  "leaf_at soa p = (if 0 \<le> p \<and> p < int (length soa) then Some (soa ! nat p) else None)"

text \<open>
  The strided loop of \<open>global_ParallelScanning_Leafnodes\<close> as one block runs it:
  \<open>node_itr\<close> goes from \<open>bid\<close> up to \<open>chunk\<close> in steps of the number of blocks and
  the pointer \<open>p\<close> (an index into the device buffer) advances with it. Every thread
  \<open>tid\<close> of the block tests its branch; \<open>t_hit\<close> is the shared array and \<open>nv\<close> is
  \<open>g_node_visit_count[bid]\<close>. A read outside the device buffer is the result
  \<open>None\<close>. The number of blocks dimensions the arrays \<open>g_hit\<close> and
  \<open>g_node_visit_count\<close>, so it is positive wherever a block exists.
\<close>

function scan_loop ::
  "('b \<Rightarrow> 'p list \<Rightarrow> bool) \<Rightarrow> nat \<Rightarrow> nat \<Rightarrow> 'b Node_SOA list \<Rightarrow> 'p list \<Rightarrow> ui
     \<Rightarrow> nat \<Rightarrow> int \<Rightarrow> ui list \<Rightarrow> ui \<Rightarrow> (ui list \<times> ui) option" where
  "scan_loop ov number_of_blocks number_of_threads g_soa query chunk node_itr p t_hit nv =
     (if node_itr < chunk \<and> 0 < number_of_blocks then
        (case leaf_at g_soa p of
           None \<Rightarrow> None
         | Some n \<Rightarrow>
             scan_loop ov number_of_blocks number_of_threads g_soa query chunk
               (node_itr + number_of_blocks) (p + int number_of_blocks)
               (map (\<lambda>tid. if tid < SOA_GetBranchCount n \<and> SOA_IsOverlap ov n query tid
                           then wrap_ui (t_hit ! tid + 1) else t_hit ! tid)
                  [0..<number_of_threads])
               (wrap_ui (nv + 1)))
      else Some (t_hit, nv))"
  by pat_completeness auto
termination
  by (relation "measure (\<lambda>(ov, nb, nt, g_soa, query, chunk, node_itr, p, t_hit, nv). chunk - node_itr)")
     auto

text \<open>
  One block of \<open>global_ParallelScanning_Leafnodes\<close>: it returns the new values of
  \<open>g_hit[bid]\<close> and \<open>g_node_visit_count[bid]\<close>.
\<close>

definition scan_block ::
  "('b \<Rightarrow> 'p list \<Rightarrow> bool) \<Rightarrow> nat \<Rightarrow> nat \<Rightarrow> (nat \<Rightarrow> 'p) \<Rightarrow> 'b Node_SOA list \<Rightarrow> 'p list
     \<Rightarrow> ll \<Rightarrow> ui \<Rightarrow> nat \<Rightarrow> ui \<times> ui \<Rightarrow> (ui \<times> ui) option" where
  "scan_block ov number_of_blocks number_of_threads junk g_soa query start_node_offset chunk bid g =
     (case scan_loop ov number_of_blocks number_of_threads g_soa
             (shared_query number_of_threads junk query) chunk bid
             (start_node_offset + int bid) (replicate number_of_threads 0) (snd g) of
        None \<Rightarrow> None
      | Some (t_hit, nv) \<Rightarrow> Some (wrap_ui (fst g + ParallelReduction t_hit), nv))"

text \<open>
  The launch \<open>global_ParallelScanning_Leafnodes<<<number_of_blocks, number_of_threads>>>\<close>:
  block \<open>bid\<close> updates entry \<open>bid\<close> of the device arrays \<open>g_hit\<close> and
  \<open>g_node_visit_count\<close>, held here as one list of pairs.
\<close>

fun scan_blocks ::
  "('b \<Rightarrow> 'p list \<Rightarrow> bool) \<Rightarrow> nat \<Rightarrow> nat \<Rightarrow> (nat \<Rightarrow> 'p) \<Rightarrow> 'b Node_SOA list \<Rightarrow> 'p list
     \<Rightarrow> ll \<Rightarrow> ui \<Rightarrow> nat list \<Rightarrow> (ui \<times> ui) list \<Rightarrow> (ui \<times> ui) list option" where
  "scan_blocks ov nb nt junk g_soa query start_node_offset chunk [] g = Some g"
| "scan_blocks ov nb nt junk g_soa query start_node_offset chunk (bid # bids) g =
     (case scan_block ov nb nt junk g_soa query start_node_offset chunk bid (g ! bid) of
        None \<Rightarrow> None
      | Some gb \<Rightarrow> scan_blocks ov nb nt junk g_soa query start_node_offset chunk bids (g[bid := gb]))"

definition global_ParallelScanning_Leafnodes ::
  "('b \<Rightarrow> 'p list \<Rightarrow> bool) \<Rightarrow> nat \<Rightarrow> nat \<Rightarrow> (nat \<Rightarrow> 'p) \<Rightarrow> 'b Node_SOA list \<Rightarrow> 'p list
     \<Rightarrow> ll \<Rightarrow> ui \<Rightarrow> (ui \<times> ui) list \<Rightarrow> (ui \<times> ui) list option" where
  "global_ParallelScanning_Leafnodes ov nb nt junk g_soa query start_node_offset chunk g =
     scan_blocks ov nb nt junk g_soa query start_node_offset chunk [0..<nb] g"

definition global_SetHitCount :: "nat \<Rightarrow> ui \<Rightarrow> (ui \<times> ui) list" where
  "global_SetHitCount number_of_blocks init_value =
     map (\<lambda>tid. (init_value, init_value)) [0..<number_of_blocks]"

text \<open>The host's final sum over the copied \<open>h_hit\<close> array.\<close>

definition total_hit :: "(ui \<times> ui) list \<Rightarrow> ui" where
  "total_hit g = foldl (\<lambda>s h. wrap_ui (s + h)) 0 (map fst g)"

text \<open>
  The hit total that \<open>Search\<close> reports for a single launch: the counters are zeroed
  by \<open>global_SetHitCount\<close>, the kernel runs, and the host adds up the per-block
  counters it copied back.
\<close>

definition device_scan_total ::
  "('b \<Rightarrow> 'p list \<Rightarrow> bool) \<Rightarrow> nat \<Rightarrow> nat \<Rightarrow> (nat \<Rightarrow> 'p) \<Rightarrow> 'b Node_SOA list \<Rightarrow> 'p list
     \<Rightarrow> ll \<Rightarrow> ui \<Rightarrow> ui option" where
  "device_scan_total ov nb nt junk g_soa query start_node_offset chunk =
     map_option total_hit
       (global_ParallelScanning_Leafnodes ov nb nt junk g_soa query start_node_offset chunk
          (global_SetHitCount nb 0))"

section \<open>Matches of a query in the leaf buffer\<close>

text \<open>
  The number of branches of one leaf node that overlap the query, and the list of leaf
  offsets recorded for the nodes of \<open>[s, e)\<close>: each node once per overlapping branch,
  in scan order.
\<close>

definition node_hits :: "('b \<Rightarrow> 'p list \<Rightarrow> bool) \<Rightarrow> 'b Node_SOA \<Rightarrow> 'p list \<Rightarrow> nat" where
  "node_hits ov n query = length (filter (\<lambda>b. ov b query) (soa_box n))"

definition range_hits :: "('b \<Rightarrow> 'p list \<Rightarrow> bool) \<Rightarrow> 'b Node_SOA list \<Rightarrow> 'p list \<Rightarrow> nat \<Rightarrow> nat \<Rightarrow> ll list" where
  "range_hits ov soa query s e =
     concat (map (\<lambda>node_itr. replicate (node_hits ov (soa ! node_itr) query) (int node_itr)) [s..<e])"

text \<open>
  The pointers one block dereferences in the strided loop, and the number of threads of
  a block whose test succeeds at one node.
\<close>

function stride :: "nat \<Rightarrow> nat \<Rightarrow> nat \<Rightarrow> int \<Rightarrow> int list" where
  "stride number_of_blocks chunk node_itr p =
     (if node_itr < chunk \<and> 0 < number_of_blocks
      then p # stride number_of_blocks chunk (node_itr + number_of_blocks) (p + int number_of_blocks)
      else [])"
  by pat_completeness auto
termination
  by (relation "measure (\<lambda>(nb, chunk, node_itr, p). chunk - node_itr)") auto

definition thread_hits :: "('b \<Rightarrow> 'p list \<Rightarrow> bool) \<Rightarrow> nat \<Rightarrow> 'b Node_SOA \<Rightarrow> 'p list \<Rightarrow> nat" where
  "thread_hits ov number_of_threads n query =
     length (filter (\<lambda>tid. tid < SOA_GetBranchCount n \<and> SOA_IsOverlap ov n query tid) [0..<number_of_threads])"

section \<open>Traversal of the internal nodes on the host\<close>

text \<open>
  The node structure that \<open>node_ptr\<close> points to, with the child pointers followed:
  a leaf node holds its branches, an internal node holds for every branch the node that
  \<open>GetBranchChildNode\<close> returns for it. The first argument of either constructor
  is the address of the node.
\<close>

datatype 'b tree =
    LeafNode addr "'b Branch list"
  | InternalNode addr "('b Branch \<times> 'b tree) list"

text \<open>
  The loop of \<open>TraverseInternalNodes\<close> over the branches of a leaf node: the index
  of the first branch beyond \<open>visited_leafIndex\<close>, or \<open>start_node_index\<close> unchanged.
\<close>

fun leaf_loop :: "'b Branch list \<Rightarrow> ll \<Rightarrow> ll \<Rightarrow> ll" where
  "leaf_loop [] visited_leafIndex start_node_index = start_node_index"
| "leaf_loop (b # bs) visited_leafIndex start_node_index =
     (if branch_index b > visited_leafIndex then branch_index b
      else leaf_loop bs visited_leafIndex start_node_index)"

text \<open>
  \<open>Hybrid::TraverseInternalNodes\<close> and its loop over the branches of an internal
  node. The result is \<open>start_node_index\<close> paired with the new value of the counter
  that \<open>node_visit_count\<close> points to. The loop carries \<open>start_node_index\<close>, which
  every recursive call overwrites, and stops at the first call that returns a positive
  value.
\<close>

fun TraverseInternalNodes ::
  "('b \<Rightarrow> 'p list \<Rightarrow> bool) \<Rightarrow> 'b tree \<Rightarrow> 'p list \<Rightarrow> ll \<Rightarrow> ui \<Rightarrow> ll \<times> ui"
and internal_loop ::
  "('b \<Rightarrow> 'p list \<Rightarrow> bool) \<Rightarrow> ('b Branch \<times> 'b tree) list \<Rightarrow> 'p list \<Rightarrow> ll \<Rightarrow> ll \<Rightarrow> ui
     \<Rightarrow> ll \<times> ui" where
  "TraverseInternalNodes ov (InternalNode a bcs) query visited_leafIndex node_visit_count =
     internal_loop ov bcs query visited_leafIndex 0 (wrap_ui (node_visit_count + 1))"
| "TraverseInternalNodes ov (LeafNode a bs) query visited_leafIndex node_visit_count =
     (leaf_loop bs visited_leafIndex 0, wrap_ui (node_visit_count + 1))"
| "internal_loop ov [] query visited_leafIndex start_node_index node_visit_count =
     (start_node_index, node_visit_count)"
| "internal_loop ov ((b, child) # rest) query visited_leafIndex start_node_index node_visit_count =
     (if branch_index b > visited_leafIndex \<and> ov (branch_box b) query then
        (case TraverseInternalNodes ov child query visited_leafIndex node_visit_count of
           (r, node_visit_count') \<Rightarrow>
             if r > 0 then (r, node_visit_count')
             else internal_loop ov rest query visited_leafIndex r node_visit_count')
      else internal_loop ov rest query visited_leafIndex start_node_index node_visit_count)"

section \<open>Search\<close>

text \<open>
  The compile-time constants of common/macro.h, which is not part of the sources at
  hand, are parameters.
\<close>

record config =
  GetNumberOfBlocks :: nat
  GetNumberOfThreads :: nat
  GetNumberOfDims :: nat
  GetNumberOfDegrees :: nat

text \<open>Integer division of C++, which truncates towards zero.\<close>

definition cdiv :: "int \<Rightarrow> int \<Rightarrow> int" where
  "cdiv a b = sgn a * sgn b * (\<bar>a\<bar> div \<bar>b\<bar>)"

text \<open>
  The query that a pointer \<open>&query[query_offset]\<close> denotes: the \<open>2 * dims\<close>
  coordinates from that offset on.
\<close>

definition query_at :: "config \<Rightarrow> 'p list \<Rightarrow> nat \<Rightarrow> 'p list" where
  "query_at cfg query query_offset = take (GetNumberOfDims cfg * 2) (drop query_offset query)"

text \<open>
  What \<open>Search\<close> changes: the field \<open>chunk_size\<close> of the object, the device
  counters \<open>g_hit\<close> and \<open>g_node_visit_count\<close>, and its local total of node visits.
  \<open>launches\<close> records the arguments \<open>(start_node_offset, chunk_size)\<close> of every
  kernel launch, in order.
\<close>

record search_state =
  st_chunk_size :: ui
  st_g :: "(ui \<times> ui) list"
  st_total_node_visit_count_cpu :: ui
  st_launches :: "(ll \<times> ui) list"

text \<open>
  The clipping of \<open>chunk_size\<close> in \<open>Search\<close>: the sum and the difference are
  computed in \<open>ll\<close>, and the difference is converted to \<open>ui\<close> by the assignment.
\<close>

definition clip_chunk :: "ui \<Rightarrow> ll \<Rightarrow> ui \<Rightarrow> ui" where
  "clip_chunk leaf_count start_node_offset chunk =
     (if start_node_offset + int chunk > int leaf_count
      then ui_of (int leaf_count - start_node_offset) else chunk)"

text \<open>
  How a run of the search loops ends: the loops finish (\<open>Done\<close>), the bound on the
  number of iterations is used up first (\<open>OutOfFuel\<close>), or a kernel launch reads
  outside the device buffer (\<open>Fault\<close>). Each carries the state reached.
\<close>

datatype 'a outcome = Done 'a | OutOfFuel 'a | Fault 'a

text \<open>
  The \<open>while(1)\<close> loop of \<open>Search\<close> for one query. The first argument bounds the
  number of iterations. \<open>root\<close> is the node structure at \<open>node_ptr\<close>, \<open>g_soa\<close>
  the device copy of the leaf buffer, \<open>query\<close> and \<open>d_query\<close> the query on the
  host and on the device.
\<close>

fun jump_loop ::
  "nat \<Rightarrow> ('b \<Rightarrow> 'p list \<Rightarrow> bool) \<Rightarrow> ('c \<Rightarrow> 'p list \<Rightarrow> bool) \<Rightarrow> config \<Rightarrow> (nat \<Rightarrow> 'p)
     \<Rightarrow> 'b tree \<Rightarrow> 'c Node_SOA list \<Rightarrow> ui \<Rightarrow> 'p list \<Rightarrow> 'p list \<Rightarrow> ll \<Rightarrow> ui
     \<Rightarrow> search_state \<Rightarrow> search_state outcome" where
  "jump_loop 0 ov ov_soa cfg junk root g_soa leaf_count query d_query
       visited_leafIndex node_visit_count st = OutOfFuel st"
| "jump_loop (Suc fuel) ov ov_soa cfg junk root g_soa leaf_count query d_query
       visited_leafIndex node_visit_count st =
     (case TraverseInternalNodes ov root query visited_leafIndex node_visit_count of
        (start_node_index, node_visit_count') \<Rightarrow>
          let st1 = st\<lparr>st_total_node_visit_count_cpu :=
                        wrap_ui (st_total_node_visit_count_cpu st + node_visit_count')\<rparr>
          in if start_node_index = 0 then Done st1
             else
               let start_node_offset = cdiv (start_node_index - 1) (int (GetNumberOfDegrees cfg));
                   chunk = clip_chunk leaf_count start_node_offset (st_chunk_size st1);
                   st2 = st1\<lparr>st_chunk_size := chunk,
                             st_launches := st_launches st1 @ [(start_node_offset, chunk)]\<rparr>
               in (case global_ParallelScanning_Leafnodes ov_soa (GetNumberOfBlocks cfg)
                          (GetNumberOfThreads cfg) junk g_soa d_query start_node_offset chunk
                          (st_g st2) of
                     None \<Rightarrow> Fault st2
                   | Some g \<Rightarrow>
                       jump_loop fuel ov ov_soa cfg junk root g_soa leaf_count query d_query
                         ((start_node_offset + int chunk) * int (GetNumberOfDegrees cfg))
                         node_visit_count' (st2\<lparr>st_g := g\<rparr>)))"

text \<open>
  The loop of \<open>Search\<close> over the queries \<open>query_itr, \<dots>, number_of_search - 1\<close>.
  Nothing is reset between two queries but the three locals \<open>visited_leafIndex\<close>,
  \<open>node_visit_count\<close> and \<open>jump_count\<close>.
\<close>

function query_loop ::
  "nat \<Rightarrow> ('b \<Rightarrow> 'p list \<Rightarrow> bool) \<Rightarrow> ('c \<Rightarrow> 'p list \<Rightarrow> bool) \<Rightarrow> config \<Rightarrow> (nat \<Rightarrow> 'p)
     \<Rightarrow> 'b tree \<Rightarrow> 'c Node_SOA list \<Rightarrow> ui \<Rightarrow> 'p list \<Rightarrow> 'p list \<Rightarrow> nat \<Rightarrow> nat
     \<Rightarrow> search_state \<Rightarrow> search_state outcome" where
  "query_loop fuel ov ov_soa cfg junk root g_soa leaf_count query d_query query_itr
       number_of_search st =
     (if query_itr < number_of_search then
        (let query_offset = query_itr * GetNumberOfDims cfg * 2 in
         case jump_loop fuel ov ov_soa cfg junk root g_soa leaf_count
                (query_at cfg query query_offset) (query_at cfg d_query query_offset) 0 0 st of
           Done st' \<Rightarrow>
             query_loop fuel ov ov_soa cfg junk root g_soa leaf_count query d_query
               (Suc query_itr) number_of_search st'
         | OutOfFuel st' \<Rightarrow> OutOfFuel st'
         | Fault st' \<Rightarrow> Fault st')
      else Done st)"
  by pat_completeness auto
termination
  by (relation "measure (\<lambda>(fuel, ov, ov_soa, cfg, junk, root, g_soa, leaf_count, query, d_query,
        query_itr, number_of_search, st). number_of_search - query_itr)") auto

text \<open>\<open>Hybrid::SetChunkSize\<close>.\<close>

definition SetChunkSize :: "'b Hybrid \<Rightarrow> ui \<Rightarrow> 'b Hybrid" where
  "SetChunkSize this c = this\<lparr>chunk_size := c\<rparr>"

text \<open>
  \<open>Hybrid::Search\<close>: the counters are zeroed, the queries are run, and the totals of
  the device counters are taken. The result is the object with its new
  \<open>chunk_size\<close>, the three totals that are logged (hits, node visits on the host, node
  visits on the device) and the record of the launches.
\<close>

record 'd search_result =
  sr_this :: "'d Hybrid"
  sr_total_hit :: ui
  sr_total_node_visit_count_cpu :: ui
  sr_total_node_visit_count_gpu :: ui
  sr_launches :: "(ll \<times> ui) list"

definition Search ::
  "nat \<Rightarrow> ('b \<Rightarrow> 'p list \<Rightarrow> bool) \<Rightarrow> ('c \<Rightarrow> 'p list \<Rightarrow> bool) \<Rightarrow> config \<Rightarrow> (nat \<Rightarrow> 'p)
     \<Rightarrow> 'b tree \<Rightarrow> 'c Node_SOA list \<Rightarrow> 'd Hybrid \<Rightarrow> 'p list \<Rightarrow> 'p list \<Rightarrow> nat
     \<Rightarrow> 'd search_result outcome" where
  "Search fuel ov ov_soa cfg junk root g_soa this query d_query number_of_search =
     map_outcome
       (\<lambda>st. \<lparr>sr_this = this\<lparr>chunk_size := st_chunk_size st\<rparr>,
               sr_total_hit = total_hit (st_g st),
               sr_total_node_visit_count_cpu = st_total_node_visit_count_cpu st,
               sr_total_node_visit_count_gpu = foldl (\<lambda>s v. wrap_ui (s + v)) 0 (map snd (st_g st)),
               sr_launches = st_launches st\<rparr>)
       (query_loop fuel ov ov_soa cfg junk root g_soa (leaf_node_count this) query d_query
          0 number_of_search
          \<lparr>st_chunk_size = chunk_size this,
           st_g = global_SetHitCount (GetNumberOfBlocks cfg) 0,
           st_total_node_visit_count_cpu = 0,
           st_launches = []\<rparr>)"

text \<open>
  All branch indices of the leaf nodes of a tree, from left to right.
\<close>

fun leaf_indices :: "'b tree \<Rightarrow> ll list" where
  "leaf_indices (LeafNode a bs) = map branch_index bs"
| "leaf_indices (InternalNode a bcs) = concat (map (\<lambda>(b, child). leaf_indices child) bcs)"



text \<open>
  Whether a branch passes the test that guards the descent in \<open>TraverseInternalNodes\<close>.
\<close>

definition qualifies :: "('b \<Rightarrow> 'p list \<Rightarrow> bool) \<Rightarrow> 'p list \<Rightarrow> ll \<Rightarrow> 'b Branch \<Rightarrow> bool" where
  "qualifies ov query visited_leafIndex b =
     (branch_index b > visited_leafIndex \<and> ov (branch_box b) query)"

text \<open>
  For the branches of an internal node in order: whether the loop calls
  \<open>TraverseInternalNodes\<close> on the child of that branch. It follows the loop of the
  code: a branch that fails the test is skipped, and after a call that returned a
  positive index no further branch is looked at.
\<close>

fun descents ::
  "('b \<Rightarrow> 'p list \<Rightarrow> bool) \<Rightarrow> ('b Branch \<times> 'b tree) list \<Rightarrow> 'p list \<Rightarrow> ll \<Rightarrow> bool list" where
  "descents ov [] query visited_leafIndex = []"
| "descents ov ((b, child) # rest) query visited_leafIndex =
     (if branch_index b > visited_leafIndex \<and> ov (branch_box b) query then
        True # (if fst (TraverseInternalNodes ov child query visited_leafIndex 0) > 0
                then replicate (length rest) False
                else descents ov rest query visited_leafIndex)
      else False # descents ov rest query visited_leafIndex)"

text \<open>
  The descents as the specification words them: into every child whose branch passes
  the test.
\<close>

definition spec_descents ::
  "('b \<Rightarrow> 'p list \<Rightarrow> bool) \<Rightarrow> ('b Branch \<times> 'b tree) list \<Rightarrow> 'p list \<Rightarrow> ll \<Rightarrow> bool list" where
  "spec_descents ov bcs query visited_leafIndex =
     map (\<lambda>(b, child). qualifies ov query visited_leafIndex b) bcs"

text \<open>
  The chunk sizes of a sequence of launches follow from one another: each is the
  clipping of the one before, the first that of the value \<open>c\<close>.
\<close>

fun chained :: "ui \<Rightarrow> ui \<Rightarrow> (ll \<times> ui) list \<Rightarrow> bool" where
  "chained leaf_count c [] = True"
| "chained leaf_count c ((s, c') # ls) =
     (c' = clip_chunk leaf_count s c \<and> chained leaf_count c' ls)"

fun outcome_state :: "'a outcome \<Rightarrow> 'a" where
  "outcome_state (Done x) = x"
| "outcome_state (OutOfFuel x) = x"
| "outcome_state (Fault x) = x"

fun is_Fault :: "'a outcome \<Rightarrow> bool" where
  "is_Fault (Fault x) = True"
| "is_Fault (Done x) = False"
| "is_Fault (OutOfFuel x) = False"

fun is_Done :: "'a outcome \<Rightarrow> bool" where
  "is_Done (Done x) = True"
| "is_Done (Fault x) = False"
| "is_Done (OutOfFuel x) = False"

text \<open>
  What one run of the loops adds to a state: new launches, each within the leaf buffer,
  whose chunk sizes follow from one another and never grow, the last of them being the
  new \<open>chunk_size\<close>.
\<close>

definition jump_inv :: "ui \<Rightarrow> search_state \<Rightarrow> search_state \<Rightarrow> bool" where
  "jump_inv leaf_count st st' \<longleftrightarrow>
     (\<exists>new. st_launches st' = st_launches st @ new
        \<and> chained leaf_count (st_chunk_size st) new
        \<and> st_chunk_size st' = last (st_chunk_size st # map snd new)
        \<and> sorted_wrt (\<ge>) (st_chunk_size st # map snd new)
        \<and> (\<forall>(s, c) \<in> set new. 0 \<le> s \<and> s + int c \<le> int leaf_count)
        \<and> length (st_g st') = length (st_g st)
        \<and> (0 < st_chunk_size st \<longrightarrow> 0 < st_chunk_size st'))"

fun tree_branches :: "'b tree \<Rightarrow> ('b Branch \<times> 'b tree) list" where
  "tree_branches (InternalNode a bcs) = bcs"
| "tree_branches (LeafNode a bs) = []"

section \<open>The nodes in memory\<close>

text \<open>
  The memory that holds the nodes: a partial map from addresses to node objects. The
  size of a node object in bytes, \<open>sizeof(node::Node)\<close>, is the parameter \<open>sz\<close> of
  the functions below.
\<close>

type_synonym 'b heap = "addr \<Rightarrow> 'b Node option"

text \<open>
  Modelled from the spec: \<open>Node::GetBranchChildNode\<close> (node/node.h, not part of the
  sources at hand). The child reference of a branch is a byte offset that is relative
  to the node holding the branch: \<open>DumpToFile\<close> writes for a child the distance, in
  nodes, between the node and its child in the file, times the node size, and
  \<open>DumpFromFile\<close> reads the nodes back into one array without touching them, so a
  loaded node finds its child at its own address plus the offset.
\<close>

definition GetBranchChildNode :: "addr \<Rightarrow> 'b Node \<Rightarrow> nat \<Rightarrow> addr" where
  "GetBranchChildNode this_addr n i = this_addr + GetBranchChildOffset n i"

text \<open>
  That the memory holds a given node structure: every node of the structure lies at its
  address, and the child offsets lead from a node to its children.
\<close>

fun addr_of :: "'b tree \<Rightarrow> addr" where
  "addr_of (LeafNode a bs) = a"
| "addr_of (InternalNode a bcs) = a"

fun node_of :: "'b tree \<Rightarrow> 'b Node" where
  "node_of (LeafNode a bs) = \<lparr>node_type = NODE_TYPE_LEAF, branches = bs\<rparr>"
| "node_of (InternalNode a bcs) = \<lparr>node_type = NODE_TYPE_INTERNAL, branches = map fst bcs\<rparr>"

fun is_tree :: "'b heap \<Rightarrow> 'b tree \<Rightarrow> bool" where
  "is_tree h (LeafNode a bs) \<longleftrightarrow> h a = Some \<lparr>node_type = NODE_TYPE_LEAF, branches = bs\<rparr>"
| "is_tree h (InternalNode a bcs) \<longleftrightarrow>
     h a = Some \<lparr>node_type = NODE_TYPE_INTERNAL, branches = map fst bcs\<rparr>
     \<and> (\<forall>(b, child) \<in> set bcs. addr_of child = a + branch_child_offset b \<and> is_tree h child)"

text \<open>The nodes of a forest in breadth-first order.\<close>

fun children :: "'b tree \<Rightarrow> 'b tree list" where
  "children (LeafNode a bs) = []"
| "children (InternalNode a bcs) = map snd bcs"

fun forest_size :: "'b tree list \<Rightarrow> nat" where
  "forest_size [] = 0"
| "forest_size (t # ts) = size t + forest_size ts"

function bfs :: "'b tree list \<Rightarrow> 'b tree list" where
  "bfs [] = []"
| "bfs (t # ts) = t # bfs (ts @ children t)"
  by pat_completeness auto
termination
proof (relation "measure forest_size")
  show "wf (measure forest_size)" by simp
next
  fix t :: "'b tree" and ts
  have app: "forest_size (xs @ ys) = forest_size xs + forest_size ys" for xs ys :: "'b tree list"
    by (induction xs) auto
  have "forest_size (map snd bcs) < Suc (size_list (size_prod (\<lambda>_. 0) size) bcs)"
    for bcs :: "('b Branch \<times> 'b tree) list"
    by (induction bcs) auto
  then have "forest_size (children t) < size t" by (cases t) auto
  then show "(ts @ children t, t # ts) \<in> measure forest_size" by (simp add: app)
qed

section \<open>The index file\<close>

text \<open>
  A file is the sequence of the objects written to it; every \<open>fwrite\<close> of the code
  writes objects of one of four fixed-size types. A file system maps names to files.
\<close>

datatype 'b item = SizeT nat | UI ui | NodeRec "'b Node" | SoaRec "'b Node_SOA"

type_synonym 'b file_system = "string \<Rightarrow> 'b item list option"

subsection \<open>DumpToFile\<close>

text \<open>
  One iteration of the first loop over the branches of an internal node in
  \<open>DumpToFile\<close>: the child is pushed on the queue, the child offset is saved in
  \<open>original_child_offset\<close> and then overwritten, in the node in memory, with the size
  of the queue times the node size.
\<close>

definition patch_step ::
  "nat \<Rightarrow> addr \<Rightarrow> 'b heap \<times> addr list \<times> ll list \<Rightarrow> nat \<Rightarrow> 'b heap \<times> addr list \<times> ll list" where
  "patch_step sz a s child_itr =
     (case s of (h, bfs_queue, original_child_offset) \<Rightarrow>
        let node = the (h a);
            child_node = GetBranchChildNode a node child_itr;
            bfs_queue' = bfs_queue @ [child_node];
            original_child_offset' = original_child_offset @ [GetBranchChildOffset node child_itr];
            child_offset = int (length bfs_queue') * int sz
        in (h(a \<mapsto> SetBranchChildOffset node child_itr child_offset),
            bfs_queue', original_child_offset'))"

definition patch_children ::
  "nat \<Rightarrow> addr \<Rightarrow> 'b heap \<times> addr list \<times> ll list \<Rightarrow> 'b heap \<times> addr list \<times> ll list" where
  "patch_children sz a s = foldl (patch_step sz a) s [0..<GetBranchCount (the (fst s a))]"

text \<open>The second loop: the saved child offsets are written back.\<close>

definition restore_step :: "addr \<Rightarrow> ll list \<Rightarrow> 'b heap \<Rightarrow> nat \<Rightarrow> 'b heap" where
  "restore_step a original_child_offset h child_itr =
     h(a \<mapsto> SetBranchChildOffset (the (h a)) child_itr (original_child_offset ! child_itr))"

definition restore_children :: "addr \<Rightarrow> ll list \<Rightarrow> 'b heap \<Rightarrow> 'b heap" where
  "restore_children a original_child_offset h =
     foldl (restore_step a original_child_offset) h [0..<GetBranchCount (the (h a))]"

text \<open>
  The loop over the queue. The first argument bounds the number of iterations; the
  result carries the memory and the node objects written so far. A queue entry that
  points to no node is a \<open>Fault\<close>.
\<close>

fun dump_loop ::
  "nat \<Rightarrow> nat \<Rightarrow> 'b heap \<Rightarrow> addr list \<Rightarrow> 'b Node list \<Rightarrow> ('b heap \<times> 'b Node list) outcome" where
  "dump_loop fuel sz h [] written = Done (h, written)"
| "dump_loop 0 sz h (a # bfs_queue) written = OutOfFuel (h, written)"
| "dump_loop (Suc fuel) sz h (a # bfs_queue) written =
     (case h a of
        None \<Rightarrow> Fault (h, written)
      | Some node \<Rightarrow>
          let (h1, bfs_queue1, original_child_offset) =
                (if GetNodeType node = NODE_TYPE_INTERNAL
                 then patch_children sz a (h, bfs_queue, [])
                 else (h, bfs_queue, []));
              written1 = written @ [the (h1 a)];
              h2 = (if GetNodeType (the (h1 a)) = NODE_TYPE_INTERNAL
                    then restore_children a original_child_offset h1 else h1)
          in dump_loop fuel sz h2 bfs_queue1 written1)"

text \<open>
  \<open>fopen(index_name, "wb")\<close>. Whether a file of that name can be created or
  overwritten (the directory exists, the permissions allow it) is a property of the file
  system that is kept beside its contents, the predicate \<open>writable\<close>. Where it
  holds, the file exists and is empty after the call; where it does not, the call
  returns a null stream, which is \<open>None\<close>, and changes nothing.
\<close>

definition fopen_wb ::
  "(string \<Rightarrow> bool) \<Rightarrow> 'b file_system \<Rightarrow> string \<Rightarrow> 'b file_system option" where
  "fopen_wb writable fs index_name =
     (if writable index_name then Some (fs(index_name \<mapsto> [])) else None)"

text \<open>
  \<open>Hybrid::DumpToFile\<close>. The result carries the return value, the memory and the
  file system. The stream that \<open>fopen\<close> returns is never tested, so the first
  \<open>fwrite\<close> on a null stream is a \<open>Fault\<close>; so is reading the leaf buffer beyond
  its end. What is handed to \<open>fwrite\<close> is in the file once \<open>fclose\<close> has returned;
  a run that does not get there leaves the file as \<open>fopen\<close> created it.
\<close>

definition dump_header :: "'b Hybrid \<Rightarrow> 'c item list" where
  "dump_header this =
     SizeT (length (level_node_count this)) # map UI (level_node_count this)
       @ [UI (total_node_count this), UI (leaf_node_count this)]"

definition DumpToFile ::
  "nat \<Rightarrow> nat \<Rightarrow> (string \<Rightarrow> bool) \<Rightarrow> 'b file_system \<Rightarrow> string \<Rightarrow> 'b Hybrid \<Rightarrow> 'b heap
     \<Rightarrow> (bool \<times> 'b heap \<times> 'b file_system) outcome" where
  "DumpToFile fuel sz writable fs index_name this h =
     (case fopen_wb writable fs index_name of
        None \<Rightarrow> Fault (False, h, fs)
      | Some index_file \<Rightarrow>
          (case dump_loop fuel sz h [node_ptr this] [] of
             Done (h', written) \<Rightarrow>
               if leaf_node_count this \<le> length (node_soa_ptr this) then
                 Done (True, h',
                       index_file(index_name \<mapsto> dump_header this @ map NodeRec written
                            @ map SoaRec (take (leaf_node_count this) (node_soa_ptr this))))
               else Fault (False, h', index_file)
           | OutOfFuel (h', written) \<Rightarrow> OutOfFuel (False, h', index_file)
           | Fault (h', written) \<Rightarrow> Fault (False, h', index_file)))"

subsection \<open>DumpFromFile\<close>

text \<open>
  The reads of \<open>DumpFromFile\<close>. The code does not look at what \<open>fread\<close> returns;
  when the file does not hold the objects asked for, the fields read are not
  determined, which is the result \<open>None\<close>.
\<close>

fun read_size_t :: "'b item list \<Rightarrow> (nat \<times> 'b item list) option" where
  "read_size_t (SizeT n # rest) = Some (n, rest)"
| "read_size_t items = None"

fun read_ui :: "'b item list \<Rightarrow> (ui \<times> 'b item list) option" where
  "read_ui (UI n # rest) = Some (n, rest)"
| "read_ui items = None"

fun read_uis :: "nat \<Rightarrow> 'b item list \<Rightarrow> (ui list \<times> 'b item list) option" where
  "read_uis 0 items = Some ([], items)"
| "read_uis (Suc k) (UI n # rest) =
     (case read_uis k rest of None \<Rightarrow> None | Some (ns, rest') \<Rightarrow> Some (n # ns, rest'))"
| "read_uis (Suc k) items = None"

fun read_nodes :: "nat \<Rightarrow> 'b item list \<Rightarrow> ('b Node list \<times> 'b item list) option" where
  "read_nodes 0 items = Some ([], items)"
| "read_nodes (Suc k) (NodeRec n # rest) =
     (case read_nodes k rest of None \<Rightarrow> None | Some (ns, rest') \<Rightarrow> Some (n # ns, rest'))"
| "read_nodes (Suc k) items = None"

fun read_soas :: "nat \<Rightarrow> 'b item list \<Rightarrow> ('b Node_SOA list \<times> 'b item list) option" where
  "read_soas 0 items = Some ([], items)"
| "read_soas (Suc k) (SoaRec n # rest) =
     (case read_soas k rest of None \<Rightarrow> None | Some (ns, rest') \<Rightarrow> Some (n # ns, rest'))"
| "read_soas (Suc k) items = None"

text \<open>An array of node objects in memory, from the address \<open>p\<close> on.\<close>

fun store_nodes :: "nat \<Rightarrow> addr \<Rightarrow> 'b Node list \<Rightarrow> 'b heap \<Rightarrow> 'b heap" where
  "store_nodes sz p [] h = h"
| "store_nodes sz p (n # ns) h = store_nodes sz (p + int sz) ns (h(p \<mapsto> n))"

text \<open>
  \<open>Hybrid::DumpFromFile\<close>. \<open>p\<close> is the address of the array that
  \<open>new node::Node[total_node_count]\<close> returns. The result is the return value, the
  object and the memory.
\<close>

definition DumpFromFile ::
  "nat \<Rightarrow> 'b file_system \<Rightarrow> string \<Rightarrow> addr \<Rightarrow> 'b Hybrid \<Rightarrow> 'b heap
     \<Rightarrow> (bool \<times> 'b Hybrid \<times> 'b heap) option" where
  "DumpFromFile sz fs index_name p this h =
     (case fs index_name of
        None \<Rightarrow> Some (False, this, h)
      | Some items \<Rightarrow>
          (case read_size_t items of None \<Rightarrow> None | Some (height, r1) \<Rightarrow>
          (case read_uis height r1 of None \<Rightarrow> None | Some (levels, r2) \<Rightarrow>
          (case read_ui r2 of None \<Rightarrow> None | Some (total_count, r3) \<Rightarrow>
          (case read_ui r3 of None \<Rightarrow> None | Some (leaf_count, r4) \<Rightarrow>
          (case read_nodes total_count r4 of None \<Rightarrow> None | Some (nodes, r5) \<Rightarrow>
          (case read_soas leaf_count r5 of None \<Rightarrow> None | Some (soas, r6) \<Rightarrow>
             Some (True,
                   this\<lparr>level_node_count := levels, total_node_count := total_count,
                        leaf_node_count := leaf_count, node_ptr := p, node_soa_ptr := soas\<rparr>,
                   store_nodes sz p nodes h))))))))"

section \<open>What the dump writes\<close>

text \<open>
  A node with the child offsets of its first \<open>k\<close> branches overwritten as the first
  loop of \<open>DumpToFile\<close> does when \<open>m\<close> nodes wait in the queue: branch \<open>j\<close>
  gets \<open>(m + j + 1) * sz\<close>.
\<close>

definition patched_upto :: "nat \<Rightarrow> nat \<Rightarrow> 'b Node \<Rightarrow> nat \<Rightarrow> 'b Node" where
  "patched_upto sz m node k =
     node\<lparr>branches :=
        map (\<lambda>j. if j < k
                  then (branches node ! j)\<lparr>branch_child_offset := int (m + j + 1) * int sz\<rparr>
                  else branches node ! j)
          [0..<length (branches node)]\<rparr>"

text \<open>
  The same node while the second loop writes the saved offsets back: the first \<open>k\<close>
  branches have their own offsets again.
\<close>

definition restored_upto :: "nat \<Rightarrow> nat \<Rightarrow> 'b Node \<Rightarrow> nat \<Rightarrow> 'b Node" where
  "restored_upto sz m node k =
     node\<lparr>branches :=
        map (\<lambda>j. if j < k then branches node ! j
                  else (branches node ! j)\<lparr>branch_child_offset := int (m + j + 1) * int sz\<rparr>)
          [0..<length (branches node)]\<rparr>"

definition serial_node :: "nat \<Rightarrow> nat \<Rightarrow> 'b tree \<Rightarrow> 'b Node" where
  "serial_node sz m t =
     (if node_type (node_of t) = NODE_TYPE_INTERNAL
      then patched_upto sz m (node_of t) (length (branches (node_of t)))
      else node_of t)"

text \<open>
  The node objects written for a queue that holds the roots of a forest: in
  breadth-first order, each patched for the number of nodes that wait behind it.
\<close>

function serial :: "nat \<Rightarrow> 'b tree list \<Rightarrow> 'b Node list" where
  "serial sz [] = []"
| "serial sz (t # ts) = serial_node sz (length ts) t # serial sz (ts @ children t)"
  by pat_completeness auto
termination
proof (relation "measure (\<lambda>(sz, ts). forest_size ts)")
  show "wf (measure (\<lambda>(sz, ts). forest_size ts))" by simp
next
  fix sz :: nat and t :: "'b tree" and ts
  have app: "forest_size (xs @ ys) = forest_size xs + forest_size ys" for xs ys :: "'b tree list"
    by (induction xs) auto
  have "forest_size (map snd bcs) < Suc (size_list (size_prod (\<lambda>_. 0) size) bcs)"
    for bcs :: "('b Branch \<times> 'b tree) list"
    by (induction bcs) auto
  then have "forest_size (children t) < size t" by (cases t) auto
  then show "((sz, ts @ children t), (sz, t # ts)) \<in> measure (\<lambda>(sz, ts). forest_size ts)"
    by (simp add: app)
qed

text \<open>The memory that holds exactly the nodes of a tree.\<close>

definition tree_heap :: "'b tree \<Rightarrow> 'b heap" where
  "tree_heap t = map_of (map (\<lambda>n. (addr_of n, node_of n)) (bfs [t]))"

text \<open>A branch with its child offset blanked out.\<close>

definition without_offset :: "'b Branch \<Rightarrow> 'b Branch" where
  "without_offset b = b\<lparr>branch_child_offset := 0\<rparr>"

text \<open>
  The child offset as the specification words it: the position of the child in
  breadth-first order times the node size.
\<close>

definition spec_child_offset :: "nat \<Rightarrow> nat \<Rightarrow> ll" where
  "spec_child_offset sz child_index_in_bfs_order = int child_index_in_bfs_order * int sz"

text \<open>
  A dump into an empty file system, in which every file can be created, followed by
  a load of the file, by an object
  \<open>that\<close> in a memory \<open>h0\<close>, into an array at the address \<open>p\<close>.
\<close>

definition round_trip ::
  "nat \<Rightarrow> nat \<Rightarrow> string \<Rightarrow> addr \<Rightarrow> 'b Hybrid \<Rightarrow> 'b heap \<Rightarrow> 'b Hybrid \<Rightarrow> 'b heap
     \<Rightarrow> (bool \<times> 'b Hybrid \<times> 'b heap) option" where
  "round_trip fuel sz index_name p this h that h0 =
     (case DumpToFile fuel sz (\<lambda>name. True) (\<lambda>name. None) index_name this h of
        Done (r, h', fs') \<Rightarrow> DumpFromFile sz fs' index_name p that h0
      | OutOfFuel x \<Rightarrow> None
      | Fault x \<Rightarrow> None)"

section \<open>Build\<close>

text \<open>
  \<open>Build\<close> calls seven functions that are declared outside the sources at hand:
  \<open>GetIndexName\<close>, \<open>CreateBranches\<close>, \<open>AssignHilbertIndexToBranches\<close>,
  \<open>sort::Sorter::Sort\<close>, \<open>Top_Down\<close>, \<open>CopyBranchToNodeSOA\<close> and \<open>MoveTreeToGPU\<close>.
  Nothing is assumed of them: they are the fields of a record that \<open>Build\<close> takes as
  a parameter. Each field has the object state it can reach as an argument and returns
  it with its result: the first three work on the dataset and the vector of branches,
  \<open>Top_Down\<close> on the object and the node memory, \<open>CopyBranchToNodeSOA\<close> on the
  object, and \<open>MoveTreeToGPU\<close> yields the leaf buffer of the device. The value of a
  default-constructed \<open>Node_SOA\<close> is a field as well.
\<close>

record ('ds, 'b) collaborators =
  GetIndexName :: "'ds \<Rightarrow> string"
  CreateBranches :: "'ds \<Rightarrow> 'b Branch list"
  AssignHilbertIndexToBranches :: "'b Branch list \<Rightarrow> bool \<times> 'b Branch list"
  Sorter_Sort :: "'b Branch list \<Rightarrow> bool \<times> 'b Branch list"
  Top_Down :: "'b Branch list \<Rightarrow> 'b Hybrid \<Rightarrow> 'b heap \<Rightarrow> bool \<times> 'b Hybrid \<times> 'b heap"
  CopyBranchToNodeSOA :: "'b Branch list \<Rightarrow> 'b Hybrid \<Rightarrow> bool \<times> 'b Hybrid"
  MoveTreeToGPU :: "'b Hybrid \<Rightarrow> nat \<Rightarrow> nat \<Rightarrow> bool \<times> 'b Node_SOA list"
  default_Node_SOA :: "'b Node_SOA"

text \<open>
  How a run of \<open>Build\<close> ends: it returns; an \<open>assert\<close> fails, which aborts the
  program; the dump it calls has not finished within the bound on its iterations; the
  dump has written through a null stream or read outside the memory that holds the tree
  or the leaf buffer; or the index file is too short for the reads of
  \<open>DumpFromFile\<close>, whose results are then indeterminate.
\<close>

datatype 'a build_outcome = Returns 'a | AssertFails | DumpUnfinished | DumpFaults | ShortFile

text \<open>
  The body of \<open>if(!DumpFromFile(index_name))\<close>. The value that \<open>DumpToFile\<close>
  returns is dropped, as is the one of \<open>CopyBranchToNodeSOA\<close>.
\<close>

definition build_index ::
  "('ds, 'b) collaborators \<Rightarrow> nat \<Rightarrow> nat \<Rightarrow> (string \<Rightarrow> bool) \<Rightarrow> 'b file_system \<Rightarrow> string
     \<Rightarrow> 'ds \<Rightarrow> 'b Hybrid \<Rightarrow> 'b heap
     \<Rightarrow> ('b Hybrid \<times> 'b heap \<times> 'b file_system) build_outcome" where
  "build_index env fuel sz writable fs index_name input_data_set this h =
     (let branches = CreateBranches env input_data_set;
          (ret1, branches1) = AssignHilbertIndexToBranches env branches
      in if \<not> ret1 then AssertFails else
     (let (ret2, branches2) = Sorter_Sort env branches1
      in if \<not> ret2 then AssertFails else
     (let (ret3, this3, h3) = Top_Down env branches2 this h
      in if \<not> ret3 then AssertFails else
     (let this4 = this3\<lparr>node_soa_ptr :=
                    replicate (leaf_node_count this3) (default_Node_SOA env)\<rparr>;
          (ret5, this5) = CopyBranchToNodeSOA env branches2 this4
      in case DumpToFile fuel sz writable fs index_name this5 h3 of
           Done (ret6, h6, fs6) \<Rightarrow> Returns (this5, h6, fs6)
         | OutOfFuel x \<Rightarrow> DumpUnfinished
         | Fault x \<Rightarrow> DumpFaults))))"

text \<open>The tail of \<open>Build\<close>: the leaves are moved to the device.\<close>

definition move_to_gpu ::
  "('ds, 'b) collaborators \<Rightarrow> ('b Hybrid \<times> 'b heap \<times> 'b file_system) build_outcome
     \<Rightarrow> (bool \<times> 'b Hybrid \<times> 'b heap \<times> 'b file_system \<times> 'b Node_SOA list) build_outcome" where
  "move_to_gpu env r =
     (case r of
        Returns (this, h, fs) \<Rightarrow>
          (let (ret, device) = MoveTreeToGPU env this 0 (leaf_node_count this)
           in if \<not> ret then AssertFails else Returns (True, this, h, fs, device))
      | AssertFails \<Rightarrow> AssertFails
      | DumpUnfinished \<Rightarrow> DumpUnfinished
      | DumpFaults \<Rightarrow> DumpFaults
      | ShortFile \<Rightarrow> ShortFile)"

text \<open>
  \<open>Build\<close>, for a file system with the contents \<open>fs\<close> in which the files of
  \<open>writable\<close> can be opened for writing, with \<open>p\<close> the address at which a load
  would place the nodes.
\<close>

definition Build ::
  "('ds, 'b) collaborators \<Rightarrow> nat \<Rightarrow> nat \<Rightarrow> (string \<Rightarrow> bool) \<Rightarrow> 'b file_system \<Rightarrow> addr
     \<Rightarrow> 'ds \<Rightarrow> 'b Hybrid \<Rightarrow> 'b heap
     \<Rightarrow> (bool \<times> 'b Hybrid \<times> 'b heap \<times> 'b file_system \<times> 'b Node_SOA list) build_outcome" where
  "Build env fuel sz writable fs p input_data_set this h =
     (let index_name = GetIndexName env input_data_set
      in case DumpFromFile sz fs index_name p this h of
           None \<Rightarrow> ShortFile
         | Some (loaded, this1, h1) \<Rightarrow>
             move_to_gpu env
               (if \<not> loaded
                then build_index env fuel sz writable fs index_name input_data_set this1 h1
                else Returns (this1, h1, fs)))"

section \<open>Example data\<close>

text \<open>
  One-dimensional boxes are closed intervals \<open>(lo, hi)\<close> and a query is the list
  \<open>[lo, hi]\<close>.
\<close>

definition interval_overlap :: "int \<times> int \<Rightarrow> int list \<Rightarrow> bool" where
  "interval_overlap b query = (fst b \<le> query ! 1 \<and> query ! 0 \<le> snd b)"

definition example_leaves :: "(int \<times> int) Hybrid" where
  "example_leaves =
     \<lparr>level_node_count = [1, 3], total_node_count = 4, leaf_node_count = 3, node_ptr = 0,
      node_soa_ptr = [\<lparr>soa_index = [1, 2], soa_box = [(0, 1), (5, 6)]\<rparr>,
                      \<lparr>soa_index = [3, 4], soa_box = [(7, 8), (9, 9)]\<rparr>,
                      \<lparr>soa_index = [5], soa_box = [(1, 3)]\<rparr>],
      chunk_size = 2\<rparr>"

text \<open>
  A tree of height two over the three example leaves, with fanout 2: the leaf branches
  are numbered 1 to 5, an internal branch carries the largest index below it and the
  interval that encloses its child. The nodes lie at scattered addresses, in units of
  a node size of 64 bytes.
\<close>

definition example_cfg :: config where
  "example_cfg = \<lparr>GetNumberOfBlocks = 2, GetNumberOfThreads = 2, GetNumberOfDims = 1,
                   GetNumberOfDegrees = 2\<rparr>"

definition example_tree :: "(int \<times> int) tree" where
  "example_tree =
     InternalNode 0
       [(\<lparr>branch_index = 2, branch_child_offset = 640, branch_box = (0, 6)\<rparr>,
         LeafNode 640 [\<lparr>branch_index = 1, branch_child_offset = 0, branch_box = (0, 1)\<rparr>,
                       \<lparr>branch_index = 2, branch_child_offset = 0, branch_box = (5, 6)\<rparr>]),
        (\<lparr>branch_index = 4, branch_child_offset = 128, branch_box = (7, 9)\<rparr>,
         LeafNode 128 [\<lparr>branch_index = 3, branch_child_offset = 0, branch_box = (7, 8)\<rparr>,
                       \<lparr>branch_index = 4, branch_child_offset = 0, branch_box = (9, 9)\<rparr>]),
        (\<lparr>branch_index = 5, branch_child_offset = 320, branch_box = (1, 3)\<rparr>,
         LeafNode 320 [\<lparr>branch_index = 5, branch_child_offset = 0, branch_box = (1, 3)\<rparr>])]"

text \<open>
  A tree of height three: the root at address 0, its only child at 256, and the leaf
  below that at 128.
\<close>

definition example_deep_tree :: "(int \<times> int) tree" where
  "example_deep_tree =
     InternalNode 0
       [(\<lparr>branch_index = 2, branch_child_offset = 256, branch_box = (0, 6)\<rparr>,
         InternalNode 256
           [(\<lparr>branch_index = 2, branch_child_offset = - 128, branch_box = (0, 6)\<rparr>,
             LeafNode 128 [\<lparr>branch_index = 1, branch_child_offset = 0, branch_box = (0, 1)\<rparr>,
                           \<lparr>branch_index = 2, branch_child_offset = 0, branch_box = (5, 6)\<rparr>])])]"

text \<open>The object that goes with the example tree, and one for the deep tree.\<close>

definition example_hybrid :: "(int \<times> int) Hybrid" where
  "example_hybrid = example_leaves"

definition example_deep_hybrid :: "(int \<times> int) Hybrid" where
  "example_deep_hybrid =
     \<lparr>level_node_count = [1, 1, 1], total_node_count = 3, leaf_node_count = 1, node_ptr = 0,
      node_soa_ptr = [\<lparr>soa_index = [1, 2], soa_box = [(0, 1), (5, 6)]\<rparr>],
      chunk_size = 1\<rparr>"

text \<open>
  Collaborators for \<open>Build\<close> that produce the example tree: every step succeeds,
  \<open>Top_Down\<close> lays out the tree of height two and sets the counts,
  \<open>CopyBranchToNodeSOA\<close> fills the leaf buffer. The object they start from is empty.
\<close>

definition example_env :: "((int \<times> int) list, int \<times> int) collaborators" where
  "example_env =
     \<lparr>GetIndexName = (\<lambda>ds. ''index''),
      CreateBranches =
        (\<lambda>ds. map (\<lambda>b. \<lparr>branch_index = 0, branch_child_offset = 0, branch_box = b\<rparr>) ds),
      AssignHilbertIndexToBranches = (\<lambda>bs. (True, bs)),
      Sorter_Sort = (\<lambda>bs. (True, bs)),
      Top_Down =
        (\<lambda>bs this h. (True,
                       this\<lparr>level_node_count := [1, 3], total_node_count := 4,
                            leaf_node_count := 3, node_ptr := 0\<rparr>,
                       tree_heap example_tree)),
      CopyBranchToNodeSOA =
        (\<lambda>bs this. (True, this\<lparr>node_soa_ptr := node_soa_ptr example_leaves\<rparr>)),
      MoveTreeToGPU = (\<lambda>this first count. (True, take count (drop first (node_soa_ptr this)))),
      default_Node_SOA = \<lparr>soa_index = [], soa_box = []\<rparr>\<rparr>"

definition example_empty :: "(int \<times> int) Hybrid" where
  "example_empty =
     \<lparr>level_node_count = [], total_node_count = 0, leaf_node_count = 0, node_ptr = 0,
      node_soa_ptr = [], chunk_size = 2\<rparr>"

definition example_points :: "(int \<times> int) list" where
  "example_points = [(0, 1), (5, 6), (7, 8), (9, 9), (1, 3)]"

text \<open>A file system in which every file can be created.\<close>

definition any_name :: "string \<Rightarrow> bool" where
  "any_name index_name = True"

section \<open>Properties of the brute-force scan\<close>

lemma filter_upt_nth: "length (filter (\<lambda>i. P (xs ! i)) [0..<length xs]) = length (filter P xs)"
proof -
  have "filter P xs = filter P (map (\<lambda>i. xs ! i) [0..<length xs])" by (simp add: map_nth)
  also have "\<dots> = map (\<lambda>i. xs ! i) (filter (\<lambda>i. P (xs ! i)) [0..<length xs])"
    by (simp add: filter_map comp_def)
  finally show ?thesis by (metis length_map)
qed

lemma filter_upt_nth_empty:
  "filter (\<lambda>i. P (xs ! i)) [0..<length xs] = [] \<longleftrightarrow> filter P xs = []"
  using filter_upt_nth[of P xs] by (metis length_0_conv)

lemma wrap_ui_code [code]: "wrap_ui x = nat (int x mod 4294967296)"
proof -
  have "int x mod 4294967296 = int (x mod 4294967296)" by (simp add: zmod_int)
  then have "nat (int x mod 4294967296) = x mod 4294967296" by (simp only: nat_int)
  then show ?thesis by (simp add: wrap_ui_def)
qed

lemma wrap_ui_lt: "wrap_ui x < 2 ^ 32" by (simp add: wrap_ui_def)
lemma wrap_ui_id: "x < 2 ^ 32 \<Longrightarrow> wrap_ui x = x" by (simp add: wrap_ui_def)
lemma wrap_ui_add_left: "wrap_ui (wrap_ui a + b) = wrap_ui (a + b)" by (simp add: wrap_ui_def mod_simps)
lemma wrap_ui_add_right: "wrap_ui (a + wrap_ui b) = wrap_ui (a + b)" by (simp add: wrap_ui_def mod_simps)

lemma child_loop:
  "foldl (\<lambda>(offs, hit) child_itr. if P child_itr then (offs @ [v], wrap_ui (hit + 1)) else (offs, hit))
      (offs, hit) cs
   = (offs @ replicate (length (filter P cs)) v,
      if filter P cs = [] then hit else wrap_ui (hit + length (filter P cs)))"
proof (induction cs arbitrary: offs hit)
  case Nil then show ?case by simp
next
  case (Cons c cs)
  show ?case
  proof (cases "P c")
    case True
    from Cons.IH[of "offs @ [v]" "wrap_ui (hit + 1)"] True show ?thesis
      by (simp add: replicate_app_Cons_same wrap_ui_add_left)
  next
    case False
    with Cons show ?thesis by simp
  qed
qed

lemma Thread_BruteForce_eq:
  "Thread_BruteForce ov soa query (offs, hit) s e =
    (offs @ range_hits ov soa query s e,
     if range_hits ov soa query s e = [] then hit
     else wrap_ui (hit + length (range_hits ov soa query s e)))"
proof (induction e)
  case 0 then show ?case by (simp add: Thread_BruteForce_def range_hits_def)
next
  case (Suc e)
  show ?case
  proof (cases "s \<le> e")
    case False
    then show ?thesis by (simp add: Thread_BruteForce_def range_hits_def)
  next
    case True
    have "Thread_BruteForce ov soa query (offs, hit) s (Suc e) =
       foldl (\<lambda>(start_node_offset, hit) child_itr.
            if SOA_IsOverlap ov (soa ! e) query child_itr
            then (start_node_offset @ [int e], wrap_ui (hit + 1))
            else (start_node_offset, hit))
         (Thread_BruteForce ov soa query (offs, hit) s e) [0..<SOA_GetBranchCount (soa ! e)]"
      using True by (simp add: Thread_BruteForce_def)
    also have "\<dots> = (offs @ range_hits ov soa query s e @ replicate (node_hits ov (soa ! e) query) (int e),
        if range_hits ov soa query s e @ replicate (node_hits ov (soa ! e) query) (int e) = [] then hit
        else wrap_ui (hit + length (range_hits ov soa query s e) + node_hits ov (soa ! e) query))"
      unfolding Suc.IH
      by (simp add: child_loop SOA_IsOverlap_def SOA_GetBranchCount_def node_hits_def
          filter_upt_nth[of "\<lambda>b. ov b query"] filter_upt_nth_empty[of "\<lambda>b. ov b query"]
          wrap_ui_add_left)
    finally show ?thesis using True
      by (simp add: range_hits_def add.assoc)
  qed
qed

lemma length_launch: "length (launch_threads k c s e) = k"
  by (induction k arbitrary: s e) auto

lemma launch_nth:
  "i < k \<Longrightarrow> launch_threads k c s e ! i = (if i = 0 then s else e + (i - 1) * c, e + i * c)"
proof (induction k arbitrary: s e i)
  case 0 then show ?case by simp
next
  case (Suc k)
  show ?case
  proof (cases i)
    case 0 then show ?thesis by simp
  next
    case (Suc j)
    with Suc.prems have "j < k" by simp
    from Suc.IH[OF this, of e "e + c"] Suc show ?thesis
      by (cases j) (auto simp: algebra_simps)
  qed
qed

lemma launch_cover:
  "s \<le> e \<Longrightarrow> concat (map (\<lambda>(a, b). [a..<b]) (launch_threads (Suc k) c s e)) = [s..<e + k * c]"
proof (induction k arbitrary: s e)
  case 0 then show ?case by simp
next
  case (Suc k)
  have "concat (map (\<lambda>(a, b). [a..<b]) (launch_threads (Suc (Suc k)) c s e))
      = [s..<e] @ concat (map (\<lambda>(a, b). [a..<b]) (launch_threads (Suc k) c e (e + c)))"
    by simp
  also have "\<dots> = [s..<e] @ [e..<e + c + k * c]"
    using Suc.IH[of e "e + c"] by simp
  also have "\<dots> = [s..<e + Suc k * c]"
    using Suc.prems upt_add_eq_append[of s e "c + k * c"] by (simp add: algebra_simps)
  finally show ?case .
qed

lemma concat_loop:
  "foldl (\<lambda>(offs, hit) (t_offs, t_hit). (offs @ t_offs, wrap_ui (hit + t_hit))) (offs, hit) rs
   = (offs @ concat (map fst rs), if rs = [] then hit else wrap_ui (hit + sum_list (map snd rs)))"
proof (induction rs arbitrary: offs hit)
  case Nil then show ?case by simp
next
  case (Cons r rs)
  obtain a b where r: "r = (a, b)" by (cases r)
  show ?case unfolding r using Cons.IH[of "offs @ a" "wrap_ui (hit + b)"]
    by (simp add: wrap_ui_add_left add.assoc wrap_ui_lt wrap_ui_id[OF wrap_ui_lt])
qed

lemma range_hits_append:
  "s \<le> m \<Longrightarrow> m \<le> e \<Longrightarrow> range_hits ov soa q s m @ range_hits ov soa q m e = range_hits ov soa q s e"
proof -
  assume "s \<le> m" "m \<le> e"
  then have "[s..<e] = [s..<m] @ [m..<e]"
    by (metis le_Suc_ex upt_add_eq_append)
  then show ?thesis by (simp add: range_hits_def)
qed

lemma range_hits_concat:
  "concat (map (\<lambda>(s, e). range_hits ov soa q s e) rs)
   = concat (map (\<lambda>n. replicate (node_hits ov (soa ! n) q) (int n)) (concat (map (\<lambda>(a, b). [a..<b]) rs)))"
  by (induction rs) (auto simp: range_hits_def)

lemma sorted_range_hits: "sorted (range_hits ov soa q s e)"
proof (induction e)
  case 0 then show ?case by (simp add: range_hits_def)
next
  case (Suc e)
  show ?case
  proof (cases "s \<le> e")
    case False then show ?thesis by (simp add: range_hits_def)
  next
    case True
    have "range_hits ov soa q s (Suc e) = range_hits ov soa q s e @ replicate (node_hits ov (soa ! e) q) (int e)"
      using True by (simp add: range_hits_def)
    moreover have "\<forall>x \<in> set (range_hits ov soa q s e). x \<le> int e"
      by (auto simp: range_hits_def)
    ultimately show ?thesis using Suc by (auto simp: sorted_append)
  qed
qed

lemma thread_ranges_cover:
  "0 < T \<Longrightarrow> concat (map (\<lambda>(a, b). [a..<b]) (thread_ranges L T)) = [0..<L]"
proof -
  assume "0 < T"
  then obtain k where T: "T = Suc k" by (cases T) auto
  have "L div T + L mod T + k * (L div T) = L"
    unfolding T by (metis add.commute add.assoc mult_Suc div_mult_mod_eq mult.commute)
  then show ?thesis
    unfolding thread_ranges_def Let_def T using launch_cover[of 0 "L div Suc k + L mod Suc k" k "L div Suc k"]
    by (simp add: T)
qed

lemma thread_ranges_nth:
  "i < T \<Longrightarrow> thread_ranges L T ! i =
     (if i = 0 then 0 else i * (L div T) + L mod T, Suc i * (L div T) + L mod T)"
  by (cases i) (simp_all add: thread_ranges_def Let_def launch_nth algebra_simps)

lemma thread_results:
  "map (\<lambda>(thread_itr, (s, e)). Thread_BruteForce ov soa q ([], th thread_itr) s e) zs
   = map (\<lambda>(thread_itr, (s, e)). (range_hits ov soa q s e,
        if range_hits ov soa q s e = [] then th thread_itr
        else wrap_ui (th thread_itr + length (range_hits ov soa q s e)))) zs"
  by (rule map_cong) (auto simp: Thread_BruteForce_eq)

lemma fst_results:
  assumes "length rs = T"
  shows "map (\<lambda>(i, (s, e)). fst (Thread_BruteForce ov soa q ([], th i) s e)) (zip [0..<T] rs)
       = map (\<lambda>(s, e). range_hits ov soa q s e) rs"
  using assms by (intro nth_equalityI) (auto simp: Thread_BruteForce_eq split_def)

lemma concat_results:
  assumes "0 < T"
  shows "concat (map (\<lambda>(i, (s, e)). fst (Thread_BruteForce ov soa q ([], th i) s e))
            (zip [0..<T] (thread_ranges L T))) = range_hits ov soa q 0 L"
proof -
  have len: "length (thread_ranges L T) = T" by (simp add: thread_ranges_def Let_def length_launch)
  show ?thesis
    unfolding fst_results[OF len] range_hits_concat thread_ranges_cover[OF assms]
    by (simp add: range_hits_def)
qed

lemma BruteForce_result:
  assumes "0 < T"
  shows "\<exists>hit. BruteForceSearchOnCPU ov T th this q =
     Some (True, sort (concat (map (\<lambda>(i, (s, e)). fst (Thread_BruteForce ov (node_soa_ptr this) q ([], th i) s e))
            (zip [0..<T] (thread_ranges (leaf_node_count this) T)))), hit)"
proof -
  let ?zs = "zip [0..<T] (thread_ranges (leaf_node_count this) T)"
  let ?rs = "map (\<lambda>(thread_itr, (s, e)). Thread_BruteForce ov (node_soa_ptr this) q ([], th thread_itr) s e) ?zs"
  have "map fst ?rs = map (\<lambda>(i, (s, e)). fst (Thread_BruteForce ov (node_soa_ptr this) q ([], th i) s e)) ?zs"
    by (simp add: split_def comp_def)
  then show ?thesis using assms concat_loop[of "[]" 0 ?rs]
    by (simp add: BruteForceSearchOnCPU_def Let_def del: map_map)
qed

section \<open>Properties of the device scan\<close>

declare stride.simps [simp del]
declare scan_loop.simps [simp del]

lemma thread_hits_all:
  assumes "SOA_GetBranchCount n \<le> T"
  shows "thread_hits ov T n q = node_hits ov n q"
proof -
  have "[0..<T] = [0..<length (soa_box n)] @ [length (soa_box n)..<T]"
    using assms by (metis SOA_GetBranchCount_def le_Suc_ex upt_add_eq_append zero_le)
  then have "thread_hits ov T n q
     = length (filter (\<lambda>tid. tid < length (soa_box n) \<and> ov (soa_box n ! tid) q) [0..<length (soa_box n)])
     + length (filter (\<lambda>tid. tid < length (soa_box n) \<and> ov (soa_box n ! tid) q) [length (soa_box n)..<T])"
    by (simp add: thread_hits_def SOA_GetBranchCount_def SOA_IsOverlap_def)
  also have "filter (\<lambda>tid. tid < length (soa_box n) \<and> ov (soa_box n ! tid) q) [length (soa_box n)..<T] = []"
    by (auto simp: filter_empty_conv)
  also have "filter (\<lambda>tid. tid < length (soa_box n) \<and> ov (soa_box n ! tid) q) [0..<length (soa_box n)]
     = filter (\<lambda>tid. ov (soa_box n ! tid) q) [0..<length (soa_box n)]"
    by (rule filter_cong) auto
  finally show ?thesis
    by (simp add: node_hits_def filter_upt_nth[of "\<lambda>b. ov b q"])
qed

lemma sum_list_step:
  assumes "length t = T"
  shows "wrap_ui (sum_list (map (\<lambda>tid. if P tid then wrap_ui (t ! tid + 1) else t ! tid) [0..<T]))
       = wrap_ui (sum_list t + length (filter P [0..<T]))"
proof -
  have "wrap_ui (sum_list (map (\<lambda>tid. if P tid then wrap_ui (t ! tid + 1) else t ! tid) [0..<k]))
       = wrap_ui (sum_list (take k t) + length (filter P [0..<k]))" if "k \<le> T" for k
    using that
  proof (induction k)
    case 0 then show ?case by simp
  next
    case (Suc k)
    then have k: "k < length t" using assms by simp
    have IH: "wrap_ui (sum_list (map (\<lambda>tid. if P tid then wrap_ui (t ! tid + 1) else t ! tid) [0..<k]))
       = wrap_ui (sum_list (take k t) + length (filter P [0..<k]))"
      using Suc by simp
    have "wrap_ui (sum_list (map (\<lambda>tid. if P tid then wrap_ui (t ! tid + 1) else t ! tid) [0..<Suc k]))
        = wrap_ui (wrap_ui (sum_list (map (\<lambda>tid. if P tid then wrap_ui (t ! tid + 1) else t ! tid) [0..<k]))
            + (if P k then t ! k + 1 else t ! k))"
      by (simp add: wrap_ui_add_left wrap_ui_add_right)
    also have "\<dots> = wrap_ui (sum_list (take k t) + length (filter P [0..<k]) + (if P k then t ! k + 1 else t ! k))"
      unfolding IH by (simp add: wrap_ui_add_left)
    also have "\<dots> = wrap_ui (sum_list (take (Suc k) t) + length (filter P [0..<Suc k]))"
      using k by (simp add: take_Suc_conv_app_nth ac_simps)
    finally show ?case .
  qed
  from this[of T] assms show ?thesis by simp
qed

lemma scan_loop_Some:
  assumes "length t_hit = T"
    and "scan_loop ov B T soa q chunk i p t_hit nv = Some (t', nv')"
  shows "length t' = T
     \<and> wrap_ui (sum_list t') = wrap_ui (sum_list t_hit
          + sum_list (map (\<lambda>p. thread_hits ov T (soa ! nat p) q) (stride B chunk i p)))
     \<and> (\<forall>p \<in> set (stride B chunk i p). 0 \<le> p \<and> p < int (length soa))"
  using assms
proof (induction ov B T soa q chunk i p t_hit nv rule: scan_loop.induct)
  case (1 ov B T soa q chunk i p t_hit nv)
  show ?case
  proof (cases "i < chunk \<and> 0 < B")
    case False
    then have "stride B chunk i p = []" by (subst stride.simps) auto
    moreover have "scan_loop ov B T soa q chunk i p t_hit nv = Some (t_hit, nv)"
      using False by (subst scan_loop.simps) auto
    ultimately show ?thesis using "1.prems" by simp
  next
    case True
    then obtain n where n: "leaf_at soa p = Some n"
      using "1.prems"(2) by (cases "leaf_at soa p") (simp_all add: scan_loop.simps[of ov B T soa q chunk i p])
    then have pn: "0 \<le> p" "p < int (length soa)" "n = soa ! nat p"
      by (auto simp: leaf_at_def split: if_splits)
    let ?t = "map (\<lambda>tid. if tid < SOA_GetBranchCount n \<and> SOA_IsOverlap ov n q tid
                           then wrap_ui (t_hit ! tid + 1) else t_hit ! tid) [0..<T]"
    have rec: "scan_loop ov B T soa q chunk (i + B) (p + int B) ?t (wrap_ui (nv + 1)) = Some (t', nv')"
      using "1.prems"(2) True n by (simp add: scan_loop.simps[of ov B T soa q chunk i p])
    have len: "length ?t = T" by simp
    note IH = "1.IH"[OF True n len rec]
    have st: "stride B chunk i p = p # stride B chunk (i + B) (p + int B)"
      using True by (simp add: stride.simps[of B chunk i p])
    have "wrap_ui (sum_list t') = wrap_ui (wrap_ui (sum_list ?t)
          + sum_list (map (\<lambda>p. thread_hits ov T (soa ! nat p) q) (stride B chunk (i + B) (p + int B))))"
      using IH by (simp add: wrap_ui_add_left)
    also have "wrap_ui (sum_list ?t) = wrap_ui (sum_list t_hit + thread_hits ov T n q)"
      using sum_list_step[OF "1.prems"(1)] by (simp add: thread_hits_def)
    finally show ?thesis using IH pn st by (simp add: wrap_ui_add_left add.assoc)
  qed
qed

lemma scan_loop_safe:
  assumes "\<forall>p \<in> set (stride B chunk i p). 0 \<le> p \<and> p < int (length soa)"
  shows "\<exists>r. scan_loop ov B T soa q chunk i p t_hit nv = Some r"
  using assms
proof (induction ov B T soa q chunk i p t_hit nv rule: scan_loop.induct)
  case (1 ov B T soa q chunk i p t_hit nv)
  show ?case
  proof (cases "i < chunk \<and> 0 < B")
    case False
    then have "scan_loop ov B T soa q chunk i p t_hit nv = Some (t_hit, nv)"
      by (subst scan_loop.simps) auto
    then show ?thesis by simp
  next
    case True
    then have st: "stride B chunk i p = p # stride B chunk (i + B) (p + int B)"
      by (simp add: stride.simps[of B chunk i p])
    with "1.prems" have n: "leaf_at soa p = Some (soa ! nat p)" by (simp add: leaf_at_def)
    from "1.IH"[OF True n] "1.prems" st True n show ?thesis
      by (simp add: scan_loop.simps[of ov B T soa q chunk i p])
  qed
qed

lemma upt_split: "a \<le> m \<Longrightarrow> m \<le> b \<Longrightarrow> [a..<b] = [a..<m] @ [m..<b]"
  by (metis le_Suc_ex upt_add_eq_append)

lemma filter_mod_gap:
  assumes "m \<le> i + B"
  shows "filter (\<lambda>j. j mod B = i mod B) [Suc i..<m] = []"
proof -
  have "j mod B \<noteq> i mod B" if "i < j" "j < i + B" for j
  proof
    assume e: "j mod B = i mod B"
    have "i \<le> j" using that by simp
    from mod_eq_dvd_iff_nat[OF this, of B] e have "B dvd j - i" by simp
    moreover have "0 < j - i" "j - i < B" using that by auto
    ultimately show False using nat_dvd_not_less by blast
  qed
  then show ?thesis using assms by (auto simp: filter_empty_conv)
qed

lemma stride_eq:
  "0 < B \<Longrightarrow> stride B chunk i (start + int i)
     = map (\<lambda>j. start + int j) (filter (\<lambda>j. j mod B = i mod B) [i..<chunk])"
proof (induction B chunk i "start + int i" rule: stride.induct)
  case (1 B chunk i)
  show ?case
  proof (cases "i < chunk \<and> 0 < B")
    case False
    then have "stride B chunk i (start + int i) = []" by (subst stride.simps) auto
    then show ?thesis using False "1.prems" by auto
  next
    case True
    have st: "stride B chunk i (start + int i)
        = (start + int i) # stride B chunk (i + B) (start + int (i + B))"
      using True by (subst stride.simps) (simp add: add.assoc)
    have IH: "stride B chunk (i + B) (start + int (i + B))
        = map (\<lambda>j. start + int j) (filter (\<lambda>j. j mod B = (i + B) mod B) [i + B..<chunk])"
      using "1.hyps"[OF True] "1.prems" by (simp add: add.assoc)
    have "[i..<chunk] = i # [Suc i..<min chunk (i + B)] @ [min chunk (i + B)..<chunk]"
    proof -
      have "[i..<chunk] = i # [Suc i..<chunk]" using True by (simp add: upt_conv_Cons)
      moreover have "[Suc i..<chunk] = [Suc i..<min chunk (i + B)] @ [min chunk (i + B)..<chunk]"
        using True by (intro upt_split) auto
      ultimately show ?thesis by simp
    qed
    then have "filter (\<lambda>j. j mod B = i mod B) [i..<chunk]
        = i # filter (\<lambda>j. j mod B = i mod B) [min chunk (i + B)..<chunk]"
      using filter_mod_gap[of "min chunk (i + B)" i B] by simp
    also have "filter (\<lambda>j. j mod B = i mod B) [min chunk (i + B)..<chunk]
        = filter (\<lambda>j. j mod B = i mod B) [i + B..<chunk]"
      by (cases "chunk \<le> i + B") (simp_all add: min_def)
    finally show ?thesis using st IH by simp
  qed
qed

lemma shared_query_id: "length q \<le> T \<Longrightarrow> shared_query T junk q = q"
  by (auto simp: shared_query_def intro: nth_equalityI)

lemma scan_block_Some:
  assumes "\<forall>p \<in> set (stride B chunk bid (start + int bid)). 0 \<le> p \<and> p < int (length soa)"
    and "length q \<le> T"
  shows "\<exists>nv. scan_block ov B T junk soa q start chunk bid g
     = Some (wrap_ui (fst g + sum_list (map (\<lambda>p. thread_hits ov T (soa ! nat p) q)
                                        (stride B chunk bid (start + int bid)))), nv)"
proof -
  obtain t' nv' where r: "scan_loop ov B T soa q chunk bid (start + int bid) (replicate T 0) (snd g) = Some (t', nv')"
    using scan_loop_safe[OF assms(1)] by fastforce
  from scan_loop_Some[OF _ r]
  have "wrap_ui (sum_list t') = wrap_ui (sum_list (map (\<lambda>p. thread_hits ov T (soa ! nat p) q)
                                        (stride B chunk bid (start + int bid))))"
    by (simp add: sum_list_replicate)
  then have "wrap_ui (fst g + sum_list t') = wrap_ui (fst g + sum_list (map (\<lambda>p. thread_hits ov T (soa ! nat p) q)
                                        (stride B chunk bid (start + int bid))))"
    by (metis wrap_ui_add_right)
  then show ?thesis using r assms(2)
    by (simp add: scan_block_def shared_query_id ParallelReduction_def wrap_ui_add_right)
qed

lemma scan_blocks_Some:
  assumes "distinct bids" "\<forall>b \<in> set bids. b < length g"
    and "\<forall>b \<in> set bids. \<exists>r. scan_block ov B T junk soa q start chunk b (g ! b) = Some r"
  shows "\<exists>g'. scan_blocks ov B T junk soa q start chunk bids g = Some g' \<and> length g' = length g
     \<and> (\<forall>b < length g. g' ! b = (if b \<in> set bids
            then the (scan_block ov B T junk soa q start chunk b (g ! b)) else g ! b))"
  using assms
proof (induction bids arbitrary: g)
  case Nil then show ?case by simp
next
  case (Cons b bids)
  then obtain gb where gb: "scan_block ov B T junk soa q start chunk b (g ! b) = Some gb" by auto
  let ?g = "g[b := gb]"
  have "\<forall>c \<in> set bids. ?g ! c = g ! c" using Cons.prems(1) by (metis distinct.simps(2) nth_list_update_neq)
  then have "\<exists>g'. scan_blocks ov B T junk soa q start chunk bids ?g = Some g' \<and> length g' = length ?g
     \<and> (\<forall>c < length ?g. g' ! c = (if c \<in> set bids
            then the (scan_block ov B T junk soa q start chunk c (?g ! c)) else ?g ! c))"
    using Cons.prems by (intro Cons.IH) auto
  then obtain g' where g': "scan_blocks ov B T junk soa q start chunk bids ?g = Some g'"
     "length g' = length g"
     "\<forall>c < length g. g' ! c = (if c \<in> set bids
            then the (scan_block ov B T junk soa q start chunk c (?g ! c)) else ?g ! c)"
    by auto
  have "\<forall>c < length g. g' ! c = (if c \<in> set (b # bids)
            then the (scan_block ov B T junk soa q start chunk c (g ! c)) else g ! c)"
    using g'(3) gb Cons.prems(1,2) by (auto simp: nth_list_update)
  then show ?case using g' gb by simp
qed

lemma foldl_wrap:
  "foldl (\<lambda>s h. wrap_ui (s + h)) a xs = (if xs = [] then a else wrap_ui (a + sum_list xs))"
  by (induction xs arbitrary: a) (auto simp: wrap_ui_add_left add.assoc)

lemma wrap_sum_wrap:
  "wrap_ui (sum_list (map (\<lambda>b. wrap_ui (f b)) bs)) = wrap_ui (sum_list (map f bs))"
proof (induction bs)
  case Nil then show ?case by simp
next
  case (Cons b bs)
  have "wrap_ui (wrap_ui (f b) + sum_list (map (\<lambda>b. wrap_ui (f b)) bs))
      = wrap_ui (f b + wrap_ui (sum_list (map (\<lambda>b. wrap_ui (f b)) bs)))"
    by (simp add: wrap_ui_add_left wrap_ui_add_right)
  then show ?case using Cons by (simp add: wrap_ui_add_right)
qed

lemma sum_list_map_add:
  "sum_list (map (\<lambda>x. f x + h x) xs) = sum_list (map f xs) + (sum_list (map h xs) :: nat)"
  by (induction xs) auto

lemma sum_by_residue:
  assumes "0 < B"
  shows "sum_list (map (\<lambda>b. sum_list (map g (filter (\<lambda>j. j mod B = b) [0..<c]))) [0..<B])
       = (sum_list (map g [0..<c]) :: nat)"
proof (induction c)
  case 0 then show ?case by simp
next
  case (Suc c)
  have "sum_list (map (\<lambda>b. sum_list (map g (filter (\<lambda>j. j mod B = b) [0..<Suc c]))) [0..<B])
      = sum_list (map (\<lambda>b. sum_list (map g (filter (\<lambda>j. j mod B = b) [0..<c]))
                          + (if c mod B = b then g c else 0)) [0..<B])"
    by (intro arg_cong[where f = sum_list] map_cong) auto
  also have "\<dots> = sum_list (map g [0..<c]) + sum_list (map (\<lambda>b. if c mod B = b then g c else 0) [0..<B])"
    by (simp only: sum_list_map_add Suc)
  also have "sum_list (map (\<lambda>b. if c mod B = b then g c else 0) [0..<B]) = g c"
  proof -
    have "sum_list (map (\<lambda>b. if c mod B = b then g c else 0) [0..<B])
        = (\<Sum>b\<in>{0..<B}. if c mod B = b then g c else 0)"
      by (simp add: interv_sum_list_conv_sum_set_nat)
    also have "\<dots> = g c" using assms by (simp add: sum.delta)
    finally show ?thesis .
  qed
  finally show ?case by simp
qed

lemma filter_residue_from:
  assumes "b < B"
  shows "filter (\<lambda>j. j mod B = b mod B) [b..<c] = filter (\<lambda>j. j mod B = b) [0..<c]"
proof (cases "b \<le> c")
  case True
  have "[0..<c] = [0..<b] @ [b..<c]" using True by (intro upt_split) auto
  moreover have "filter (\<lambda>j. j mod B = b) [0..<b] = []" using assms by (auto simp: filter_empty_conv)
  ultimately show ?thesis using assms by simp
next
  case False
  then show ?thesis using assms by (auto simp: filter_empty_conv)
qed

lemma length_range_hits:
  "length (range_hits ov soa q s e) = sum_list (map (\<lambda>n. node_hits ov (soa ! n) q) [s..<e])"
  by (simp add: range_hits_def length_concat comp_def)

lemma device_scan_total_eq:
  assumes "0 < B" "length q \<le> T" "\<forall>n \<in> set soa. SOA_GetBranchCount n \<le> T"
    and "s + chunk \<le> length soa"
  shows "device_scan_total ov B T junk soa q (int s) chunk
       = Some (wrap_ui (length (range_hits ov soa q s (s + chunk))))"
proof -
  let ?g0 = "global_SetHitCount B 0"
  let ?th = "\<lambda>j. thread_hits ov T (soa ! (s + j)) q"
  have str: "stride B chunk b (int s + int b) = map (\<lambda>j. int s + int j) (filter (\<lambda>j. j mod B = b) [0..<chunk])"
    if "b < B" for b
    using stride_eq[OF assms(1), of chunk b "int s"] filter_residue_from[OF that, of chunk] by simp
  have safe: "\<forall>p \<in> set (stride B chunk b (int s + int b)). 0 \<le> p \<and> p < int (length soa)" if "b < B" for b
    using assms(4) by (auto simp: str[OF that])
  have blk: "\<exists>nv. scan_block ov B T junk soa q (int s) chunk b g
       = Some (wrap_ui (fst g + sum_list (map ?th (filter (\<lambda>j. j mod B = b) [0..<chunk]))), nv)"
    if "b < B" for b g
  proof -
    have "map (\<lambda>p. thread_hits ov T (soa ! nat p) q) (stride B chunk b (int s + int b))
        = map ?th (filter (\<lambda>j. j mod B = b) [0..<chunk])"
      by (simp add: str[OF that] comp_def nat_add_distrib nat_int_add)
    with scan_block_Some[OF safe[OF that] assms(2), of ov junk g] show ?thesis by simp
  qed
  have len0: "length ?g0 = B" by (simp add: global_SetHitCount_def)
  have g0: "?g0 ! b = (0, 0)" if "b < B" for b using that by (simp add: global_SetHitCount_def)
  have "\<exists>g'. scan_blocks ov B T junk soa q (int s) chunk [0..<B] ?g0 = Some g' \<and> length g' = length ?g0
     \<and> (\<forall>b < length ?g0. g' ! b = (if b \<in> set [0..<B]
            then the (scan_block ov B T junk soa q (int s) chunk b (?g0 ! b)) else ?g0 ! b))"
    using blk len0 by (intro scan_blocks_Some) fastforce+
  then obtain g' where g': "scan_blocks ov B T junk soa q (int s) chunk [0..<B] ?g0 = Some g'"
    "length g' = B"
    "\<forall>b < B. g' ! b = the (scan_block ov B T junk soa q (int s) chunk b (0, 0))"
    using len0 g0 by auto
  have "map fst g' = map (\<lambda>b. wrap_ui (sum_list (map ?th (filter (\<lambda>j. j mod B = b) [0..<chunk])))) [0..<B]"
  proof (intro nth_equalityI)
    show "length (map fst g') = length (map (\<lambda>b. wrap_ui (sum_list (map ?th (filter (\<lambda>j. j mod B = b) [0..<chunk])))) [0..<B])"
      using g'(2) by simp
  next
    fix b assume "b < length (map fst g')"
    then have b: "b < B" using g'(2) by simp
    from blk[OF b, of "(0, 0)"] g'(3) b g'(2)
    show "map fst g' ! b = map (\<lambda>b. wrap_ui (sum_list (map ?th (filter (\<lambda>j. j mod B = b) [0..<chunk])))) [0..<B] ! b"
      by auto
  qed
  then have "total_hit g' = wrap_ui (sum_list (map (\<lambda>b. wrap_ui (sum_list (map ?th (filter (\<lambda>j. j mod B = b) [0..<chunk])))) [0..<B]))"
    using assms(1) g'(2) by (simp add: total_hit_def foldl_wrap)
  also have "\<dots> = wrap_ui (sum_list (map ?th [0..<chunk]))"
    by (simp only: wrap_sum_wrap sum_by_residue[OF assms(1)])
  also have "map ?th [0..<chunk] = map (\<lambda>j. node_hits ov (soa ! (s + j)) q) [0..<chunk]"
    using assms(3,4) by (intro map_cong) (auto simp: thread_hits_all)
  also have "\<dots> = map (\<lambda>n. node_hits ov (soa ! n) q) [s..<s + chunk]"
    by (intro nth_equalityI) auto
  finally show ?thesis using g'(1)
    by (simp add: device_scan_total_def global_ParallelScanning_Leafnodes_def length_range_hits)
qed

section \<open>The device scan against the brute-force scan\<close>

lemma wrap_sum_cond:
  "wrap_ui (sum_list (map (\<lambda>b. if c b then f b else wrap_ui (f b + h b)) bs))
     = wrap_ui (sum_list (map f bs) + sum_list (map h bs))" if "\<And>b. c b \<Longrightarrow> h b = 0"
proof (induction bs)
  case Nil then show ?case by simp
next
  case (Cons b bs)
  have "wrap_ui ((if c b then f b else wrap_ui (f b + h b))
           + sum_list (map (\<lambda>b. if c b then f b else wrap_ui (f b + h b)) bs))
      = wrap_ui ((f b + h b) + wrap_ui (sum_list (map (\<lambda>b. if c b then f b else wrap_ui (f b + h b)) bs)))"
    using that[of b] by (simp add: wrap_ui_add_left wrap_ui_add_right)
  also have "\<dots> = wrap_ui ((f b + h b) + (sum_list (map f bs) + sum_list (map h bs)))"
    unfolding Cons.IH by (rule wrap_ui_add_right)
  finally show ?case by (simp add: ac_simps)
qed

lemma BruteForce_hit:
  assumes "0 < T"
  shows "BruteForceSearchOnCPU ov T th this q =
     Some (True, range_hits ov (node_soa_ptr this) q 0 (leaf_node_count this),
           wrap_ui (sum_list (map th [0..<T])
                    + length (range_hits ov (node_soa_ptr this) q 0 (leaf_node_count this))))"
proof -
  let ?soa = "node_soa_ptr this" and ?L = "leaf_node_count this"
  let ?zs = "zip [0..<T] (thread_ranges ?L T)"
  let ?rs = "map (\<lambda>(i, (s, e)). Thread_BruteForce ov ?soa q ([], th i) s e) ?zs"
  have len: "length (thread_ranges ?L T) = T" by (simp add: thread_ranges_def Let_def length_launch)
  have ne: "?rs \<noteq> []" using assms len by (cases "thread_ranges ?L T") auto
  have f: "map fst ?rs = map (\<lambda>(i, (s, e)). fst (Thread_BruteForce ov ?soa q ([], th i) s e)) ?zs"
    by (simp add: split_def comp_def)
  have offs: "concat (map fst ?rs) = range_hits ov ?soa q 0 ?L"
    unfolding f by (rule concat_results[OF assms])
  let ?c = "\<lambda>z. range_hits ov ?soa q (fst (snd z)) (snd (snd z)) = []"
  let ?h = "\<lambda>z. length (range_hits ov ?soa q (fst (snd z)) (snd (snd z)))"
  have A: "map snd ?rs = map (\<lambda>z. if ?c z then th (fst z) else wrap_ui (th (fst z) + ?h z)) ?zs"
    by (simp add: split_def comp_def Thread_BruteForce_eq)
  have B: "wrap_ui (sum_list (map (\<lambda>z. if ?c z then th (fst z) else wrap_ui (th (fst z) + ?h z)) ?zs))
      = wrap_ui (sum_list (map (\<lambda>z. th (fst z)) ?zs) + sum_list (map ?h ?zs))"
    by (rule wrap_sum_cond) simp
  have C: "map (\<lambda>z. th (fst z)) ?zs = map th [0..<T]"
    using len by (intro nth_equalityI) auto
  have D: "sum_list (map ?h ?zs) = length (concat (map fst ?rs))"
    by (simp add: length_concat comp_def split_def Thread_BruteForce_eq)
  have hit: "wrap_ui (sum_list (map snd ?rs))
      = wrap_ui (sum_list (map th [0..<T]) + length (range_hits ov ?soa q 0 ?L))"
    by (simp only: A B C D offs)
  have srt: "sort (range_hits ov ?soa q 0 ?L) = range_hits ov ?soa q 0 ?L"
    by (simp add: sorted_range_hits sorted_sort_id)
  have "foldl (\<lambda>(offs, hit) (t_offs, t_hit). (offs @ t_offs, wrap_ui (hit + t_hit))) ([], 0) ?rs
      = (range_hits ov ?soa q 0 ?L, wrap_ui (sum_list (map th [0..<T]) + length (range_hits ov ?soa q 0 ?L)))"
    unfolding concat_loop using ne offs hit by simp
  then show ?thesis using assms srt
    by (simp add: BruteForceSearchOnCPU_def Let_def del: map_map)
qed

lemma device_scan_agrees_with_zeroed_brute_force:
  assumes "0 < B" "length q \<le> T" "\<forall>n \<in> set (node_soa_ptr this). SOA_GetBranchCount n \<le> T"
    and "length (node_soa_ptr this) = leaf_node_count this" and "0 < NT"
  shows "\<exists>offs hit. BruteForceSearchOnCPU ov NT (\<lambda>i. 0) this q = Some (True, offs, hit)
     \<and> device_scan_total ov B T junk (node_soa_ptr this) q 0 (leaf_node_count this) = Some hit"
  using device_scan_total_eq[OF assms(1,2,3), of 0 "leaf_node_count this" ov junk] assms(4)
    BruteForce_hit[OF assms(5), of ov "\<lambda>i. 0" this q]
  by (simp add: sum_list_replicate map_replicate_const)

section \<open>Properties of the traversal\<close>

lemma leaf_loop_find:
  "leaf_loop bs v s = (case find (\<lambda>b. branch_index b > v) bs of None \<Rightarrow> s | Some b \<Rightarrow> branch_index b)"
  by (induction bs) auto

lemma leaf_loop_cases:
  "leaf_loop bs v s = s \<or> (leaf_loop bs v s > v \<and> leaf_loop bs v s \<in> branch_index ` set bs)"
  by (induction bs) auto

lemma Traverse_result:
  "fst (TraverseInternalNodes ov t q v cnt) = 0
     \<or> (fst (TraverseInternalNodes ov t q v cnt) > v
        \<and> fst (TraverseInternalNodes ov t q v cnt) \<in> set (leaf_indices t))"
  and internal_loop_result:
  "fst (internal_loop ov bcs q v s cnt) = s
     \<or> fst (internal_loop ov bcs q v s cnt) = 0
     \<or> (fst (internal_loop ov bcs q v s cnt) > v
        \<and> fst (internal_loop ov bcs q v s cnt) \<in> set (concat (map (\<lambda>(b, child). leaf_indices child) bcs)))"
proof (induction ov t q v cnt and ov bcs q v s cnt rule: TraverseInternalNodes_internal_loop.induct)
  case (1 ov a bcs q v cnt)
  then show ?case by auto
next
  case (2 ov a bs q v cnt)
  then show ?case using leaf_loop_cases[of bs v 0] by auto
next
  case (3 ov q v s cnt)
  then show ?case by simp
next
  case (4 ov b child rest q v s cnt)
  show ?case
  proof (cases "branch_index b > v \<and> ov (branch_box b) q")
    case False
    with 4(3) show ?thesis by auto
  next
    case True
    obtain r c' where rc: "TraverseInternalNodes ov child q v cnt = (r, c')"
      by (cases "TraverseInternalNodes ov child q v cnt")
    show ?thesis
    proof (cases "r > 0")
      case pos: True
      with 4(1)[OF True] rc True show ?thesis by auto
    next
      case nonpos: False
      from 4(1)[OF True] rc have r: "r = 0 \<or> (r > v \<and> r \<in> set (leaf_indices child))" by simp
      from 4(2)[OF True rc[symmetric] nonpos] rc True nonpos r show ?thesis by auto
    qed
  qed
qed

lemma Traverse_fst_cnt:
  "fst (TraverseInternalNodes ov t q v cnt) = fst (TraverseInternalNodes ov t q v cnt')"
  and internal_loop_fst_cnt:
  "fst (internal_loop ov bcs q v s cnt) = fst (internal_loop ov bcs q v s cnt')"
proof (induction ov t q v cnt and ov bcs q v s cnt arbitrary: cnt' and cnt'
        rule: TraverseInternalNodes_internal_loop.induct)
  case (1 ov a bcs q v cnt)
  then show ?case by simp
next
  case (2 ov a bs q v cnt)
  then show ?case by simp
next
  case (3 ov q v s cnt)
  then show ?case by simp
next
  case (4 ov b child rest q v s cnt)
  show ?case
  proof (cases "branch_index b > v \<and> ov (branch_box b) q")
    case False
    with 4(3) show ?thesis by auto
  next
    case True
    obtain r c1 where rc: "TraverseInternalNodes ov child q v cnt = (r, c1)"
      by (cases "TraverseInternalNodes ov child q v cnt")
    obtain r' c2 where rc': "TraverseInternalNodes ov child q v cnt' = (r', c2)"
      by (cases "TraverseInternalNodes ov child q v cnt'")
    from 4(1)[OF True, of cnt'] rc rc' have rr: "r' = r" by simp
    show ?thesis
    proof (cases "r > 0")
      case pos: True
      with rc rc' rr True show ?thesis by simp
    next
      case nonpos: False
      from 4(2)[OF True rc[symmetric] nonpos, of c2] rc rc' rr True nonpos show ?thesis by simp
    qed
  qed
qed

lemma length_descents: "length (descents ov bcs q v) = length bcs"
  by (induction ov bcs q v rule: descents.induct) auto

lemma descents_nth:
  "k < length bcs \<Longrightarrow>
     descents ov bcs q v ! k \<longleftrightarrow>
       (qualifies ov q v (fst (bcs ! k))
        \<and> (\<forall>j<k. qualifies ov q v (fst (bcs ! j))
              \<longrightarrow> fst (TraverseInternalNodes ov (snd (bcs ! j)) q v 0) \<le> 0))"
proof (induction ov bcs q v arbitrary: k rule: descents.induct)
  case (1 ov q v)
  then show ?case by simp
next
  case (2 ov b child rest q v)
  show ?case
  proof (cases k)
    case 0
    then show ?thesis by (simp add: qualifies_def)
  next
    case (Suc m)
    then have m: "m < length rest" using 2(3) by simp
    have all: "(\<forall>j<Suc m. P j) \<longleftrightarrow> P 0 \<and> (\<forall>j<m. P (Suc j))" for P
      by (metis less_Suc_eq_0_disj Suc_less_eq zero_less_Suc)
    show ?thesis
    proof (cases "branch_index b > v \<and> ov (branch_box b) q")
      case False
      then have d: "descents ov ((b, child) # rest) q v = False # descents ov rest q v"
        and nq: "\<not> qualifies ov q v b" by (auto simp: qualifies_def)
      from 2(2)[OF False m] Suc nq show ?thesis unfolding d by (simp add: all)
    next
      case True
      then have qb: "qualifies ov q v b" by (simp add: qualifies_def)
      show ?thesis
      proof (cases "fst (TraverseInternalNodes ov child q v 0) > 0")
        case pos: True
        then have d: "descents ov ((b, child) # rest) q v = True # replicate (length rest) False"
          using True by simp
        show ?thesis unfolding d using Suc m qb pos by (simp add: all)
      next
        case nonpos: False
        then have d: "descents ov ((b, child) # rest) q v = True # descents ov rest q v"
          using True by simp
        from 2(1)[OF True nonpos m] Suc qb nonpos show ?thesis unfolding d by (simp add: all)
      qed
    qed
  qed
qed

lemma foldl_no_descent:
  "foldl (\<lambda>c (d, (b, child)). if d then f child c else c) cnt (zip (replicate n False) bcs) = cnt"
proof (induction bcs arbitrary: n)
  case Nil then show ?case by simp
next
  case (Cons bc bcs)
  then show ?case by (cases n; cases bc) simp_all
qed

lemma internal_loop_count:
  "snd (internal_loop ov bcs q v s cnt)
     = foldl (\<lambda>c (d, (b, child)). if d then snd (TraverseInternalNodes ov child q v c) else c)
         cnt (zip (descents ov bcs q v) bcs)"
proof (induction bcs arbitrary: s cnt)
  case Nil then show ?case by simp
next
  case (Cons bc rest)
  obtain b child where bc: "bc = (b, child)" by (cases bc)
  show ?case
  proof (cases "branch_index b > v \<and> ov (branch_box b) q")
    case False
    then have "internal_loop ov (bc # rest) q v s cnt = internal_loop ov rest q v s cnt"
      and "descents ov (bc # rest) q v = False # descents ov rest q v"
      unfolding bc by auto
    then show ?thesis using Cons[of s cnt] bc by simp
  next
    case True
    obtain r c' where rc: "TraverseInternalNodes ov child q v cnt = (r, c')"
      by (cases "TraverseInternalNodes ov child q v cnt")
    have r0: "fst (TraverseInternalNodes ov child q v 0) = r"
      using Traverse_fst_cnt[of ov child q v 0 cnt] rc by simp
    show ?thesis
    proof (cases "r > 0")
      case pos: True
      then have "internal_loop ov (bc # rest) q v s cnt = (r, c')"
        and "descents ov (bc # rest) q v = True # replicate (length rest) False"
        unfolding bc using True rc r0 by auto
      then show ?thesis using rc bc
        by (simp add: foldl_no_descent[where f = "\<lambda>child c. snd (TraverseInternalNodes ov child q v c)"])
    next
      case nonpos: False
      then have "internal_loop ov (bc # rest) q v s cnt = internal_loop ov rest q v r c'"
        and "descents ov (bc # rest) q v = True # descents ov rest q v"
        unfolding bc using True rc r0 by auto
      then show ?thesis using rc bc Cons[of r c'] by simp
    qed
  qed
qed

lemma Traverse_zero:
  assumes "\<forall>i \<in> set (leaf_indices t). i \<le> v"
  shows "fst (TraverseInternalNodes ov t q v cnt) = 0"
  using Traverse_result[of ov t q v cnt] assms by fastforce

lemma jump_loop_break:
  assumes "fst (TraverseInternalNodes ov root q v cnt) = 0"
  shows "is_Done (jump_loop (Suc fuel) ov ov_soa cfg junk root g_soa L q dq v cnt st)"
    and "st_launches (outcome_state (jump_loop (Suc fuel) ov ov_soa cfg junk root g_soa L q dq v cnt st))
           = st_launches st"
  using assms by (cases "TraverseInternalNodes ov root q v cnt"; simp)+

section \<open>Properties of the search loops\<close>

lemma int_div_less: 
  assumes "0 < (d::int)" "x < d * l" shows "x div d < l"
proof (rule ccontr)
  assume "\<not> x div d < l"
  then have "l \<le> x div d" by simp
  then have "d * l \<le> d * (x div d)" using assms(1) by (simp add: mult_left_mono)
  also have "\<dots> \<le> x"
  proof -
    have "x = d * (x div d) + x mod d" by simp
    moreover have "0 \<le> x mod d" using assms(1) by simp
    ultimately show ?thesis by linarith
  qed
  finally show False using assms(2) by simp
qed

lemma int_less_div_succ:
  assumes "0 < (d::int)" shows "x < (x div d + 1) * d"
proof -
  have "x = d * (x div d) + x mod d" by simp
  moreover have "x mod d < d" using assms by simp
  ultimately have "x < d * (x div d) + d" by linarith
  then show ?thesis by (simp add: algebra_simps)
qed

lemma cdiv_nonneg: "0 \<le> a \<Longrightarrow> 0 < b \<Longrightarrow> cdiv a b = a div b"
  by (cases "a = 0") (simp_all add: cdiv_def)

lemma start_bounds:
  assumes "0 < D" "0 < r" "r \<le> int D * int L"
  shows "0 \<le> cdiv (r - 1) (int D)" "cdiv (r - 1) (int D) < int L"
    "r \<le> (cdiv (r - 1) (int D) + 1) * int D"
proof -
  have c: "cdiv (r - 1) (int D) = (r - 1) div int D"
    using assms by (simp add: cdiv_nonneg)
  show "0 \<le> cdiv (r - 1) (int D)" unfolding c using assms by (simp add: pos_imp_zdiv_nonneg_iff)
  have "r - 1 < int D * int L" using assms by simp
  then show "cdiv (r - 1) (int D) < int L" unfolding c using assms by (intro int_div_less) auto
  have "r - 1 < ((r - 1) div int D + 1) * int D"
    using assms by (intro int_less_div_succ) auto
  then show "r \<le> (cdiv (r - 1) (int D) + 1) * int D" unfolding c by simp
qed

lemma clip_chunk_bounds:
  assumes "0 \<le> s" "s < int L" "L < 2 ^ 32"
  shows "clip_chunk L s c \<le> c" "s + int (clip_chunk L s c) \<le> int L" "0 < c \<Longrightarrow> 0 < clip_chunk L s c"
proof -
  have u: "ui_of (int L - s) = nat (int L - s)"
  proof -
    have "0 \<le> int L - s" "int L - s < 2 ^ 32" using assms by auto
    then show ?thesis by (simp add: ui_of_def)
  qed
  show "clip_chunk L s c \<le> c" using assms by (auto simp: clip_chunk_def u)
  show "s + int (clip_chunk L s c) \<le> int L" using assms by (auto simp: clip_chunk_def u)
  show "0 < c \<Longrightarrow> 0 < clip_chunk L s c" using assms by (auto simp: clip_chunk_def u)
qed

lemma scan_block_safe:
  assumes "\<forall>p \<in> set (stride B chunk bid (start + int bid)). 0 \<le> p \<and> p < int (length soa)"
  shows "\<exists>r. scan_block ov B T junk soa q start chunk bid g = Some r"
proof -
  obtain r where "scan_loop ov B T soa (shared_query T junk q) chunk bid (start + int bid)
      (replicate T 0) (snd g) = Some r"
    using scan_loop_safe[OF assms] by blast
  then show ?thesis by (cases r) (simp add: scan_block_def)
qed

lemma launch_safe:
  assumes "0 \<le> s" "s + int c \<le> int (length soa)" "length g = B"
  shows "\<exists>g'. global_ParallelScanning_Leafnodes ov B T junk soa q s c g = Some g' \<and> length g' = B"
proof -
  have "\<exists>r. scan_block ov B T junk soa q s c b (g ! b) = Some r" if "b < B" for b
  proof (rule scan_block_safe)
    have "0 < B" using that by simp
    from stride_eq[OF this, of c b s] assms(1,2)
    show "\<forall>p \<in> set (stride B c b (s + int b)). 0 \<le> p \<and> p < int (length soa)" by auto
  qed
  then have "\<exists>g'. scan_blocks ov B T junk soa q s c [0..<B] g = Some g' \<and> length g' = length g
     \<and> (\<forall>b < length g. g' ! b = (if b \<in> set [0..<B]
            then the (scan_block ov B T junk soa q s c b (g ! b)) else g ! b))"
    using assms(3) by (intro scan_blocks_Some) auto
  then show ?thesis using assms(3) by (auto simp: global_ParallelScanning_Leafnodes_def)
qed

lemma chained_append:
  "chained L c (xs @ ys) \<longleftrightarrow> chained L c xs \<and> chained L (last (c # map snd xs)) ys"
  by (induction xs arbitrary: c) auto

lemma jump_inv_refl: "st_launches st' = st_launches st \<Longrightarrow> st_chunk_size st' = st_chunk_size st
    \<Longrightarrow> length (st_g st') = length (st_g st) \<Longrightarrow> jump_inv L st st'"
  unfolding jump_inv_def by (intro exI[of _ "[]"]) simp

lemma sorted_wrt_ge_last:
  "sorted_wrt (\<ge>) (c # xs) \<Longrightarrow> last (c # xs) \<le> (c::nat)"
  by (induction xs arbitrary: c) (auto split: if_splits)

lemma jump_inv_trans:
  assumes "jump_inv L a b" "jump_inv L b c"
  shows "jump_inv L a c"
proof -
  from assms(1) obtain n1 where n1: "st_launches b = st_launches a @ n1"
    "chained L (st_chunk_size a) n1" "st_chunk_size b = last (st_chunk_size a # map snd n1)"
    "sorted_wrt (\<ge>) (st_chunk_size a # map snd n1)"
    "\<forall>(s, c) \<in> set n1. 0 \<le> s \<and> s + int c \<le> int L"
    "length (st_g b) = length (st_g a)" "0 < st_chunk_size a \<longrightarrow> 0 < st_chunk_size b"
    unfolding jump_inv_def by (elim exE conjE) (rule that, assumption+)
  from assms(2) obtain n2 where n2: "st_launches c = st_launches b @ n2"
    "chained L (st_chunk_size b) n2" "st_chunk_size c = last (st_chunk_size b # map snd n2)"
    "sorted_wrt (\<ge>) (st_chunk_size b # map snd n2)"
    "\<forall>(s, c) \<in> set n2. 0 \<le> s \<and> s + int c \<le> int L"
    "length (st_g c) = length (st_g b)" "0 < st_chunk_size b \<longrightarrow> 0 < st_chunk_size c"
    unfolding jump_inv_def by (elim exE conjE) (rule that, assumption+)
  have l1: "last (st_chunk_size a # map snd (n1 @ n2)) = last (st_chunk_size b # map snd n2)"
    using n1(3) by (cases n2) (auto)
  have "\<forall>x \<in> set (st_chunk_size a # map snd n1). \<forall>y \<in> set (map snd n2). y \<le> x"
  proof (intro ballI)
    fix x y assume x: "x \<in> set (st_chunk_size a # map snd n1)" and y: "y \<in> set (map snd n2)"
    have "y \<le> st_chunk_size b" using n2(4) y by auto
    moreover have "st_chunk_size b \<le> x"
    proof -
      obtain i where i: "i < length (st_chunk_size a # map snd n1)" "x = (st_chunk_size a # map snd n1) ! i"
        using x by (metis in_set_conv_nth)
      let ?xs = "st_chunk_size a # map snd n1"
      have "last ?xs = ?xs ! (length ?xs - 1)" by (simp add: last_conv_nth)
      show ?thesis
      proof (cases "i = length ?xs - 1")
        case True then show ?thesis using n1(3) i \<open>last ?xs = ?xs ! (length ?xs - 1)\<close> by simp
      next
        case False
        then have "i < length ?xs - 1" using i(1) by simp
        then have "?xs ! (length ?xs - 1) \<le> ?xs ! i"
          using n1(4) sorted_wrt_nth_less[of "(\<ge>)" ?xs i "length ?xs - 1"] by simp
        then show ?thesis using n1(3) i \<open>last ?xs = ?xs ! (length ?xs - 1)\<close> by simp
      qed
    qed
    ultimately show "y \<le> x" by simp
  qed
  then have srt: "sorted_wrt (\<ge>) (st_chunk_size a # map snd (n1 @ n2))"
    using n1(4) n2(4) by (simp add: sorted_wrt_append del: sorted_wrt.simps) (auto simp: sorted_wrt_append)
  show ?thesis
    unfolding jump_inv_def
    apply (intro exI[of _ "n1 @ n2"] conjI)
    subgoal using n1(1) n2(1) by simp
    subgoal using n1(2,3) n2(2) by (simp add: chained_append)
    subgoal using l1 n2(3) by simp
    subgoal by (rule srt)
    subgoal using n1(5) n2(5) by auto
    subgoal using n1(6) n2(6) by simp
    subgoal using n1(7) n2(7) by simp
    done
qed

lemma nat_diff_less: "v < v' \<Longrightarrow> v < (A::int) \<Longrightarrow> nat (A - v') < nat (A - v)"
  by arith

lemma less_fuel: "a < b \<Longrightarrow> b < Suc f \<Longrightarrow> a < (f::nat)"
  by simp

lemma jump_loop_inv:
  assumes D: "0 < GetNumberOfDegrees cfg"
    and idx: "\<forall>i \<in> set (leaf_indices root). i \<le> int (GetNumberOfDegrees cfg) * int L"
    and L32: "L < 2 ^ 32"
    and soa: "length g_soa = L"
    and g: "length (st_g st) = GetNumberOfBlocks cfg"
    and v: "0 \<le> visited"
  shows "\<not> is_Fault (jump_loop fuel ov ov_soa cfg junk root g_soa L q dq visited cnt st)
     \<and> jump_inv L st (outcome_state (jump_loop fuel ov ov_soa cfg junk root g_soa L q dq visited cnt st))
     \<and> (0 < st_chunk_size st \<and> nat (int (GetNumberOfDegrees cfg) * int L - visited) < fuel
          \<longrightarrow> is_Done (jump_loop fuel ov ov_soa cfg junk root g_soa L q dq visited cnt st))"
  using g v
proof (induction fuel arbitrary: visited cnt st)
  case 0
  then show ?case by (simp add: jump_inv_refl)
next
  case (Suc fuel)
  let ?D = "GetNumberOfDegrees cfg"
  obtain r cnt' where t: "TraverseInternalNodes ov root q visited cnt = (r, cnt')"
    by (cases "TraverseInternalNodes ov root q visited cnt")
  let ?st1 = "st\<lparr>st_total_node_visit_count_cpu := wrap_ui (st_total_node_visit_count_cpu st + cnt')\<rparr>"
  show ?case
  proof (cases "r = 0")
    case True
    then have "jump_loop (Suc fuel) ov ov_soa cfg junk root g_soa L q dq visited cnt st = Done ?st1"
      using t by simp
    then show ?thesis by (simp add: jump_inv_refl)
  next
    case False
    from Traverse_result[of ov root q visited cnt] t False
    have r: "r > visited" "r \<in> set (leaf_indices root)" by auto
    then have r0: "0 < r" and rL: "r \<le> int ?D * int L" using Suc.prems(2) idx by auto
    let ?s = "cdiv (r - 1) (int ?D)"
    let ?c = "clip_chunk L ?s (st_chunk_size st)"
    note sb = start_bounds[OF D r0 rL]
    note cb = clip_chunk_bounds[OF sb(1) sb(2) L32, of "st_chunk_size st"]
    let ?st2 = "?st1\<lparr>st_chunk_size := ?c, st_launches := st_launches ?st1 @ [(?s, ?c)]\<rparr>"
    obtain g' where g': "global_ParallelScanning_Leafnodes ov_soa (GetNumberOfBlocks cfg)
          (GetNumberOfThreads cfg) junk g_soa dq ?s ?c (st_g st) = Some g'"
        "length g' = GetNumberOfBlocks cfg"
      using launch_safe[OF sb(1), of ?c g_soa "st_g st" "GetNumberOfBlocks cfg" ov_soa "GetNumberOfThreads cfg" junk dq]
        cb(2) soa Suc.prems(1) by auto
    let ?st3 = "?st2\<lparr>st_g := g'\<rparr>"
    let ?v' = "(?s + int ?c) * int ?D"
    have step: "jump_loop (Suc fuel) ov ov_soa cfg junk root g_soa L q dq visited cnt st
        = jump_loop fuel ov ov_soa cfg junk root g_soa L q dq ?v' cnt' ?st3"
      using t False g' by (simp add: Let_def)
    have v': "0 \<le> ?v'" using sb(1) by simp
    have g3: "length (st_g ?st3) = GetNumberOfBlocks cfg" using g'(2) by simp
    note IH = Suc.IH[OF g3 v', of cnt']
    have inv1: "jump_inv L st ?st3"
      unfolding jump_inv_def
      by (intro exI[of _ "[(?s, ?c)]"]) (use cb sb g'(2) Suc.prems(1) in simp)
    have trm: "is_Done (jump_loop fuel ov ov_soa cfg junk root g_soa L q dq ?v' cnt' ?st3)"
      if c0: "0 < st_chunk_size st" and f: "nat (int ?D * int L - visited) < Suc fuel"
    proof -
      have c1: "0 < ?c" using cb(3)[OF c0] .
      have "(?s + 1) * int ?D \<le> ?v'" using c1 D by (simp add: mult_right_mono)
      with sb(3) have "r \<le> ?v'" by linarith
      with r(1) have "visited < ?v'" by simp
      moreover have "visited < int ?D * int L" using r(1) rL by simp
      ultimately have "nat (int ?D * int L - ?v') < nat (int ?D * int L - visited)"
        by (rule nat_diff_less)
      then have "nat (int ?D * int L - ?v') < fuel" using f by (rule less_fuel)
      with IH c1 show ?thesis by simp
    qed
    show ?thesis
      unfolding step using IH inv1 trm jump_inv_trans[OF inv1] by blast
  qed
qed

declare query_loop.simps [simp del]

lemma query_loop_inv:
  assumes D: "0 < GetNumberOfDegrees cfg"
    and idx: "\<forall>i \<in> set (leaf_indices root). i \<le> int (GetNumberOfDegrees cfg) * int L"
    and L32: "L < 2 ^ 32"
    and soa: "length g_soa = L"
    and g: "length (st_g st) = GetNumberOfBlocks cfg"
  shows "\<not> is_Fault (query_loop fuel ov ov_soa cfg junk root g_soa L q dq k n st)
     \<and> jump_inv L st (outcome_state (query_loop fuel ov ov_soa cfg junk root g_soa L q dq k n st))
     \<and> (0 < st_chunk_size st \<and> nat (int (GetNumberOfDegrees cfg) * int L) < fuel
          \<longrightarrow> is_Done (query_loop fuel ov ov_soa cfg junk root g_soa L q dq k n st))"
  using D idx L32 soa g
proof (induction fuel ov ov_soa cfg junk root g_soa L q dq k n st rule: query_loop.induct)
  case (1 fuel ov ov_soa cfg junk root g_soa L q dq k n st)
  note D = "1.prems"(1) and idx = "1.prems"(2) and L32 = "1.prems"(3) and soa = "1.prems"(4)
    and g = "1.prems"(5)
  show ?case
  proof (cases "k < n")
    case False
    then have "query_loop fuel ov ov_soa cfg junk root g_soa L q dq k n st = Done st"
      by (subst query_loop.simps) simp
    then show ?thesis by (simp add: jump_inv_refl)
  next
    case True
    let ?off = "k * GetNumberOfDims cfg * 2"
    let ?j = "jump_loop fuel ov ov_soa cfg junk root g_soa L (query_at cfg q ?off) (query_at cfg dq ?off) 0 0 st"
    have J: "\<not> is_Fault ?j" "jump_inv L st (outcome_state ?j)"
      "0 < st_chunk_size st \<and> nat (int (GetNumberOfDegrees cfg) * int L) < fuel \<longrightarrow> is_Done ?j"
      using jump_loop_inv[OF D idx L32 soa g, of 0 fuel ov ov_soa junk
          "query_at cfg q ?off" "query_at cfg dq ?off" 0] by simp_all
    show ?thesis
    proof (cases ?j)
      case (Done st')
      have step: "query_loop fuel ov ov_soa cfg junk root g_soa L q dq k n st
          = query_loop fuel ov ov_soa cfg junk root g_soa L q dq (Suc k) n st'"
        using True Done by (subst query_loop.simps) (simp add: Let_def)
      have inv: "jump_inv L st st'" using J(2) Done by simp
      then have g': "length (st_g st') = GetNumberOfBlocks cfg"
        using g by (auto simp: jump_inv_def)
      have c': "0 < st_chunk_size st \<longrightarrow> 0 < st_chunk_size st'"
        using inv by (auto simp: jump_inv_def)
      from "1.IH"[OF True refl Done D idx L32 soa g'] inv c' jump_inv_trans[OF inv]
      show ?thesis unfolding step by blast
    next
      case (OutOfFuel st')
      have "query_loop fuel ov ov_soa cfg junk root g_soa L q dq k n st = OutOfFuel st'"
        using True OutOfFuel by (subst query_loop.simps) (simp add: Let_def)
      then show ?thesis using J OutOfFuel by simp
    next
      case (Fault st')
      then show ?thesis using J by simp
    qed
  qed
qed

lemma Search_inv:
  assumes D: "0 < GetNumberOfDegrees cfg"
    and idx: "\<forall>i \<in> set (leaf_indices root). i \<le> int (GetNumberOfDegrees cfg) * int (leaf_node_count this)"
    and L32: "leaf_node_count this < 2 ^ 32"
    and soa: "length g_soa = leaf_node_count this"
  shows "\<not> is_Fault (Search fuel ov ov_soa cfg junk root g_soa this q dq n)"
    and "chained (leaf_node_count this) (chunk_size this)
           (sr_launches (outcome_state (Search fuel ov ov_soa cfg junk root g_soa this q dq n)))"
    and "chunk_size (sr_this (outcome_state (Search fuel ov ov_soa cfg junk root g_soa this q dq n)))
           = last (chunk_size this # map snd
               (sr_launches (outcome_state (Search fuel ov ov_soa cfg junk root g_soa this q dq n))))"
    and "sorted_wrt (\<ge>) (chunk_size this # map snd
               (sr_launches (outcome_state (Search fuel ov ov_soa cfg junk root g_soa this q dq n))))"
    and "\<forall>(s, c) \<in> set (sr_launches (outcome_state (Search fuel ov ov_soa cfg junk root g_soa this q dq n))).
            0 \<le> s \<and> s + int c \<le> int (leaf_node_count this)"
    and "0 < chunk_size this \<and> nat (int (GetNumberOfDegrees cfg) * int (leaf_node_count this)) < fuel
            \<longrightarrow> is_Done (Search fuel ov ov_soa cfg junk root g_soa this q dq n)"
proof -
  let ?st0 = "\<lparr>st_chunk_size = chunk_size this,
           st_g = global_SetHitCount (GetNumberOfBlocks cfg) 0,
           st_total_node_visit_count_cpu = 0,
           st_launches = []\<rparr>"
  let ?q = "query_loop fuel ov ov_soa cfg junk root g_soa (leaf_node_count this) q dq 0 n ?st0"
  have g: "length (st_g ?st0) = GetNumberOfBlocks cfg" by (simp add: global_SetHitCount_def)
  note Q = query_loop_inv[OF D idx L32 soa g, of fuel ov ov_soa junk q dq 0 n]
  have st: "sr_launches (outcome_state (Search fuel ov ov_soa cfg junk root g_soa this q dq n))
              = st_launches (outcome_state ?q)"
       "chunk_size (sr_this (outcome_state (Search fuel ov ov_soa cfg junk root g_soa this q dq n)))
              = st_chunk_size (outcome_state ?q)"
       "is_Fault (Search fuel ov ov_soa cfg junk root g_soa this q dq n) = is_Fault ?q"
       "is_Done (Search fuel ov ov_soa cfg junk root g_soa this q dq n) = is_Done ?q"
    by (cases ?q; simp add: Search_def)+
  from Q have inv: "jump_inv (leaf_node_count this) ?st0 (outcome_state ?q)" by simp
  then obtain new where new: "st_launches (outcome_state ?q) = new"
    "chained (leaf_node_count this) (chunk_size this) new"
    "st_chunk_size (outcome_state ?q) = last (chunk_size this # map snd new)"
    "sorted_wrt (\<ge>) (chunk_size this # map snd new)"
    "\<forall>(s, c) \<in> set new. 0 \<le> s \<and> s + int c \<le> int (leaf_node_count this)"
    unfolding jump_inv_def by (elim exE conjE) (rule that, simp_all)
  show "\<not> is_Fault (Search fuel ov ov_soa cfg junk root g_soa this q dq n)"
    using Q st(3) by simp
  show "chained (leaf_node_count this) (chunk_size this)
           (sr_launches (outcome_state (Search fuel ov ov_soa cfg junk root g_soa this q dq n)))"
    unfolding st new(1) by (rule new(2))
  show "chunk_size (sr_this (outcome_state (Search fuel ov ov_soa cfg junk root g_soa this q dq n)))
           = last (chunk_size this # map snd
               (sr_launches (outcome_state (Search fuel ov ov_soa cfg junk root g_soa this q dq n))))"
    unfolding st new(1) by (rule new(3))
  show "sorted_wrt (\<ge>) (chunk_size this # map snd
               (sr_launches (outcome_state (Search fuel ov ov_soa cfg junk root g_soa this q dq n))))"
    unfolding st new(1) by (rule new(4))
  show "\<forall>(s, c) \<in> set (sr_launches (outcome_state (Search fuel ov ov_soa cfg junk root g_soa this q dq n))).
            0 \<le> s \<and> s + int c \<le> int (leaf_node_count this)"
    unfolding st new(1) by (rule new(5))
  show "0 < chunk_size this \<and> nat (int (GetNumberOfDegrees cfg) * int (leaf_node_count this)) < fuel
            \<longrightarrow> is_Done (Search fuel ov ov_soa cfg junk root g_soa this q dq n)"
    using Q st(4) by simp
qed

lemma stride_below:
  assumes "0 \<le> s" "bid < B" "p \<in> set (stride B c bid (s + int bid))"
  shows "s \<le> p \<and> p < s + int c"
proof -
  have "0 < B" using assms(2) by simp
  from stride_eq[OF this, of c bid s] assms(3) show ?thesis by auto
qed

section \<open>Properties of the dump and of the load\<close>

lemma patched_upto_0: "patched_upto sz m node 0 = node"
  by (simp add: patched_upto_def map_nth)

lemma length_patched [simp]: "length (branches (patched_upto sz m node k)) = length (branches node)"
  by (simp add: patched_upto_def)

lemma type_patched [simp]: "node_type (patched_upto sz m node k) = node_type node"
  by (simp add: patched_upto_def)

lemma patched_step:
  assumes "k < length (branches node)"
  shows "SetBranchChildOffset (patched_upto sz m node k) k (int (m + k + 1) * int sz)
           = patched_upto sz m node (Suc k)"
    and "GetBranchChildOffset (patched_upto sz m node k) k = branch_child_offset (branches node ! k)"
proof -
  show "GetBranchChildOffset (patched_upto sz m node k) k = branch_child_offset (branches node ! k)"
    using assms by (simp add: GetBranchChildOffset_def patched_upto_def)
  have "(branches (patched_upto sz m node k))
           [k := (branches (patched_upto sz m node k) ! k)\<lparr>branch_child_offset := int (m + k + 1) * int sz\<rparr>]
        = branches (patched_upto sz m node (Suc k))"
    using assms by (intro nth_equalityI) (auto simp: patched_upto_def nth_list_update less_Suc_eq)
  then show "SetBranchChildOffset (patched_upto sz m node k) k (int (m + k + 1) * int sz)
           = patched_upto sz m node (Suc k)"
    by (simp add: SetBranchChildOffset_def patched_upto_def)
qed

lemma patch_step_eq:
  assumes "h a = Some n"
  shows "patch_step sz a (h, q, orig) i
     = (h(a \<mapsto> SetBranchChildOffset n i (int (length q + 1) * int sz)),
        q @ [a + GetBranchChildOffset n i], orig @ [GetBranchChildOffset n i])"
  using assms by (simp add: patch_step_def Let_def GetBranchChildNode_def)

lemma patch_fold:
  assumes "h a = Some node" "k \<le> length (branches node)"
  shows "foldl (patch_step sz a) (h, q, []) [0..<k]
     = (h(a \<mapsto> patched_upto sz (length q) node k),
        q @ map (\<lambda>j. a + branch_child_offset (branches node ! j)) [0..<k],
        map (\<lambda>j. branch_child_offset (branches node ! j)) [0..<k])"
  using assms(2)
proof (induction k)
  case 0
  then show ?case using assms(1) by (simp add: patched_upto_0 fun_upd_idem)
next
  case (Suc k)
  then have k: "k < length (branches node)" by simp
  have IH: "foldl (patch_step sz a) (h, q, []) [0..<k]
     = (h(a \<mapsto> patched_upto sz (length q) node k),
        q @ map (\<lambda>j. a + branch_child_offset (branches node ! j)) [0..<k],
        map (\<lambda>j. branch_child_offset (branches node ! j)) [0..<k])"
    by (rule Suc.IH) (use k in simp)
  have "foldl (patch_step sz a) (h, q, []) [0..<Suc k]
      = patch_step sz a (foldl (patch_step sz a) (h, q, []) [0..<k]) k"
    by simp
  also have "\<dots> = patch_step sz a (h(a \<mapsto> patched_upto sz (length q) node k),
           q @ map (\<lambda>j. a + branch_child_offset (branches node ! j)) [0..<k],
           map (\<lambda>j. branch_child_offset (branches node ! j)) [0..<k]) k"
    by (simp only: IH)
  also have "\<dots> = ((h(a \<mapsto> patched_upto sz (length q) node k))
            (a \<mapsto> SetBranchChildOffset (patched_upto sz (length q) node k) k
                    (int (length (q @ map (\<lambda>j. a + branch_child_offset (branches node ! j)) [0..<k]) + 1) * int sz)),
        (q @ map (\<lambda>j. a + branch_child_offset (branches node ! j)) [0..<k])
           @ [a + GetBranchChildOffset (patched_upto sz (length q) node k) k],
        map (\<lambda>j. branch_child_offset (branches node ! j)) [0..<k]
           @ [GetBranchChildOffset (patched_upto sz (length q) node k) k])"
    by (rule patch_step_eq) simp
  also have "\<dots> = (h(a \<mapsto> patched_upto sz (length q) node (Suc k)),
        q @ map (\<lambda>j. a + branch_child_offset (branches node ! j)) [0..<Suc k],
        map (\<lambda>j. branch_child_offset (branches node ! j)) [0..<Suc k])"
    using patched_step[OF k, of sz "length q"] by (simp add: add.assoc)
  finally show ?case .
qed

lemma patch_children_eq:
  assumes "h a = Some node"
  shows "patch_children sz a (h, q, [])
     = (h(a \<mapsto> patched_upto sz (length q) node (length (branches node))),
        q @ map (\<lambda>b. a + branch_child_offset b) (branches node),
        map branch_child_offset (branches node))"
proof -
  have 1: "map (\<lambda>j. a + branch_child_offset (branches node ! j)) [0..<length (branches node)]
      = map (\<lambda>b. a + branch_child_offset b) (branches node)"
    by (intro nth_equalityI) auto
  have 2: "map (\<lambda>j. branch_child_offset (branches node ! j)) [0..<length (branches node)]
      = map branch_child_offset (branches node)"
    by (intro nth_equalityI) auto
  show ?thesis
    unfolding patch_children_def
    using patch_fold[where h = h and a = a and node = node and k = "length (branches node)"
        and sz = sz and q = q] assms
    by (simp add: GetBranchCount_def 1 2)
qed

lemma restored_0: "restored_upto sz m node 0 = patched_upto sz m node (length (branches node))"
  by (simp add: restored_upto_def patched_upto_def)

lemma restored_all: "restored_upto sz m node (length (branches node)) = node"
proof -
  have "map (\<lambda>j. if j < length (branches node) then branches node ! j
                  else (branches node ! j)\<lparr>branch_child_offset := int (m + j + 1) * int sz\<rparr>)
          [0..<length (branches node)] = branches node"
    by (intro nth_equalityI) auto
  then show ?thesis by (simp add: restored_upto_def)
qed

lemma restored_step:
  assumes "k < length (branches node)"
  shows "SetBranchChildOffset (restored_upto sz m node k) k (branch_child_offset (branches node ! k))
           = restored_upto sz m node (Suc k)"
proof -
  have "(branches (restored_upto sz m node k))
           [k := (branches (restored_upto sz m node k) ! k)
                   \<lparr>branch_child_offset := branch_child_offset (branches node ! k)\<rparr>]
        = branches (restored_upto sz m node (Suc k))"
    using assms by (intro nth_equalityI) (auto simp: restored_upto_def nth_list_update less_Suc_eq)
  then show ?thesis by (simp add: SetBranchChildOffset_def restored_upto_def)
qed

lemma restore_fold:
  assumes "k \<le> length (branches node)"
  shows "foldl (restore_step a (map branch_child_offset (branches node)))
       (h(a \<mapsto> restored_upto sz m node 0)) [0..<k]
     = h(a \<mapsto> restored_upto sz m node k)"
  using assms
proof (induction k)
  case 0 then show ?case by simp
next
  case (Suc k)
  then have k: "k < length (branches node)" by simp
  have IH: "foldl (restore_step a (map branch_child_offset (branches node)))
       (h(a \<mapsto> restored_upto sz m node 0)) [0..<k] = h(a \<mapsto> restored_upto sz m node k)"
    by (rule Suc.IH) (use k in simp)
  have "foldl (restore_step a (map branch_child_offset (branches node)))
       (h(a \<mapsto> restored_upto sz m node 0)) [0..<Suc k]
      = restore_step a (map branch_child_offset (branches node))
          (foldl (restore_step a (map branch_child_offset (branches node)))
             (h(a \<mapsto> restored_upto sz m node 0)) [0..<k]) k"
    by simp
  also have "\<dots> = restore_step a (map branch_child_offset (branches node)) (h(a \<mapsto> restored_upto sz m node k)) k"
    by (simp only: IH)
  also have "\<dots> = h(a \<mapsto> restored_upto sz m node (Suc k))"
    using restored_step[OF k, of sz m] k by (simp add: restore_step_def)
  finally show ?case .
qed

lemma restore_children_eq:
  "restore_children a (map branch_child_offset (branches node))
      (h(a \<mapsto> patched_upto sz m node (length (branches node))))
     = h(a \<mapsto> node)"
  unfolding restore_children_def
  using restore_fold[of "length (branches node)" node a h sz m]
  by (simp add: GetBranchCount_def restored_0 restored_all)

lemma is_tree_node: "is_tree h t \<Longrightarrow> h (addr_of t) = Some (node_of t)"
  by (cases t) auto

lemma is_tree_children:
  "is_tree h t \<Longrightarrow> \<forall>c \<in> set (children t). is_tree h c"
  by (cases t) auto

lemma is_tree_child_addrs:
  "is_tree h t \<Longrightarrow> node_type (node_of t) = NODE_TYPE_INTERNAL \<Longrightarrow>
     map (\<lambda>b. addr_of t + branch_child_offset b) (branches (node_of t)) = map addr_of (children t)"
  by (cases t) (auto simp: comp_def split_def)

lemma length_serial: "length (serial sz ts) = length (bfs ts)"
  by (induction ts rule: bfs.induct) auto

lemma dump_loop_forest:
  assumes "\<forall>t \<in> set ts. is_tree h t"
  shows "dump_loop fuel sz h (map addr_of ts) written
     = (if length (bfs ts) \<le> fuel then Done (h, written @ serial sz ts)
        else OutOfFuel (h, written @ take fuel (serial sz ts)))"
  using assms
proof (induction ts arbitrary: fuel written rule: bfs.induct)
  case 1
  then show ?case by simp
next
  case (2 t ts)
  show ?case
  proof (cases fuel)
    case 0
    then show ?thesis by simp
  next
    case (Suc f)
    have t: "is_tree h t" using 2(2) by simp
    let ?a = "addr_of t"
    have ha: "h ?a = Some (node_of t)" using t by (rule is_tree_node)
    have rest: "\<forall>t' \<in> set (ts @ children t). is_tree h t'"
      using 2(2) is_tree_children[OF t] by auto
    note IH = 2(1)[OF rest, of f "written @ [serial_node sz (length ts) t]"]
    have step: "dump_loop (Suc f) sz h (map addr_of (t # ts)) written
        = dump_loop f sz h (map addr_of (ts @ children t)) (written @ [serial_node sz (length ts) t])"
    proof (cases "node_type (node_of t) = NODE_TYPE_INTERNAL")
      case True
      let ?P = "patched_upto sz (length ts) (node_of t) (length (branches (node_of t)))"
      have p: "patch_children sz ?a (h, map addr_of ts, [])
          = (h(?a \<mapsto> ?P), map addr_of (ts @ children t), map branch_child_offset (branches (node_of t)))"
        using patch_children_eq[where h = h and a = ?a and node = "node_of t" and sz = sz
            and q = "map addr_of ts"] ha is_tree_child_addrs[OF t True] by simp
      have r: "restore_children ?a (map branch_child_offset (branches (node_of t))) (h(?a \<mapsto> ?P)) = h"
        using restore_children_eq[of ?a "node_of t" h sz "length ts"] ha by (simp add: fun_upd_idem)
      show ?thesis using True ha p r
        by (simp add: GetNodeType_def serial_node_def)
    next
      case False
      then have "children t = []" by (cases t) auto
      then show ?thesis using False ha by (simp add: GetNodeType_def serial_node_def)
    qed
    show ?thesis unfolding Suc step IH by (simp add: length_serial)
  qed
qed

lemma bfs_prefix: "k < length ts \<Longrightarrow> bfs ts ! k = ts ! k"
proof (induction ts arbitrary: k rule: bfs.induct)
  case 1 then show ?case by simp
next
  case (2 t ts)
  show ?case
  proof (cases k)
    case 0 then show ?thesis by simp
  next
    case (Suc m)
    then have "m < length (ts @ children t)" using 2(2) by simp
    from 2(1)[OF this] Suc 2(2) show ?thesis by (simp add: nth_append)
  qed
qed

lemma length_bfs_ge: "length ts \<le> length (bfs ts)"
  by (induction ts rule: bfs.induct) auto

lemma serial_node_plain:
  "node_type (serial_node sz m t) = node_type (node_of t)"
  "map without_offset (branches (serial_node sz m t)) = map without_offset (branches (node_of t))"
  "node_type (node_of t) \<noteq> NODE_TYPE_INTERNAL \<Longrightarrow> serial_node sz m t = node_of t"
  "length (branches (serial_node sz m t)) = length (branches (node_of t))"
  by (auto simp: serial_node_def patched_upto_def without_offset_def intro: nth_equalityI)

lemma serial_node_offset:
  "node_type (node_of t) = NODE_TYPE_INTERNAL \<Longrightarrow> j < length (branches (node_of t)) \<Longrightarrow>
     branch_child_offset (branches (serial_node sz m t) ! j) = int (m + j + 1) * int sz"
  by (simp add: serial_node_def patched_upto_def)

lemma length_children: "node_type (node_of t) = NODE_TYPE_INTERNAL \<Longrightarrow>
    length (children t) = length (branches (node_of t))"
  by (cases t) auto

lemma serial_nth:
  assumes "i < length (bfs ts)"
  shows "node_type (serial sz ts ! i) = node_type (node_of (bfs ts ! i))"
    and "map without_offset (branches (serial sz ts ! i))
           = map without_offset (branches (node_of (bfs ts ! i)))"
    and "node_type (node_of (bfs ts ! i)) \<noteq> NODE_TYPE_INTERNAL
           \<longrightarrow> serial sz ts ! i = node_of (bfs ts ! i)"
    and "\<forall>j < length (children (bfs ts ! i)).
           \<exists>d. branch_child_offset (branches (serial sz ts ! i) ! j) = int d * int sz
              \<and> 0 < d \<and> i + d < length (bfs ts)
              \<and> bfs ts ! (i + d) = children (bfs ts ! i) ! j"
  using assms
proof (induction ts arbitrary: i rule: bfs.induct)
  case 1
  { case 1 then show ?case by simp }
  { case 2 then show ?case by simp }
  { case 3 then show ?case by simp }
  { case 4 then show ?case by simp }
next
  case (2 t ts)
  { case 1 
    then show ?case using "2.IH"(1)[of "i - 1"] 
      by (cases i) (simp_all add: serial_node_plain) }
  { case 2
    then show ?case using "2.IH"(2)[of "i - 1"]
      by (cases i) (simp_all add: serial_node_plain) }
  { case 3
    then show ?case using "2.IH"(3)[of "i - 1"]
      by (cases i) (simp_all add: serial_node_plain) }
  { case 4
    show ?case
    proof (cases i)
      case 0
      show ?thesis
      proof (intro allI impI)
        fix j assume j: "j < length (children (bfs (t # ts) ! i))"
        then have jt: "j < length (children t)" using 0 by simp
        then have int: "node_type (node_of t) = NODE_TYPE_INTERNAL" by (cases t) auto
        have jb: "j < length (branches (node_of t))" using jt length_children[OF int] by simp
        let ?d = "length ts + j + 1"
        have pos: "length ts + j < length (ts @ children t)" using jt by simp
        have "bfs (ts @ children t) ! (length ts + j) = (ts @ children t) ! (length ts + j)"
          using pos by (rule bfs_prefix)
        then have b: "bfs (t # ts) ! (i + ?d) = children (bfs (t # ts) ! i) ! j"
          using 0 by (simp add: nth_append)
        have l: "i + ?d < length (bfs (t # ts))"
          using length_bfs_ge[of "ts @ children t"] jt 0 by simp
        have o: "branch_child_offset (branches (serial sz (t # ts) ! i) ! j) = int ?d * int sz"
          using 0 serial_node_offset[OF int jb, of sz "length ts"] by simp
        from o b l show "\<exists>d. branch_child_offset (branches (serial sz (t # ts) ! i) ! j) = int d * int sz
              \<and> 0 < d \<and> i + d < length (bfs (t # ts))
              \<and> bfs (t # ts) ! (i + d) = children (bfs (t # ts) ! i) ! j"
          by (intro exI[of _ ?d]) simp
      qed
    next
      case (Suc m)
      then have m: "m < length (bfs (ts @ children t))" using 4 by simp
      from "2.IH"(4)[OF m] Suc show ?thesis by simp
    qed }
qed

lemma read_uis_map: "read_uis (length xs) (map UI xs @ rest) = Some (xs, rest)"
  by (induction xs) auto

lemma read_nodes_map: "read_nodes (length xs) (map NodeRec xs @ rest) = Some (xs, rest)"
  by (induction xs) auto

lemma read_soas_map: "read_soas (length xs) (map SoaRec xs @ rest) = Some (xs, rest)"
  by (induction xs) auto

lemma store_nodes_below: "a < p \<Longrightarrow> store_nodes sz p ns h a = h a"
  by (induction ns arbitrary: p h) auto

lemma store_nodes_nth:
  "0 < sz \<Longrightarrow> i < length ns \<Longrightarrow> store_nodes sz p ns h (p + int (i * sz)) = Some (ns ! i)"
proof (induction ns arbitrary: p h i)
  case Nil then show ?case by simp
next
  case (Cons n ns)
  show ?case
  proof (cases i)
    case 0
    then show ?thesis using Cons.prems(1) by (simp add: store_nodes_below)
  next
    case (Suc m)
    then have "store_nodes sz (p + int sz) ns (h(p \<mapsto> n)) ((p + int sz) + int (m * sz)) = Some (ns ! m)"
      using Cons by simp
    then show ?thesis using Suc by (simp add: algebra_simps)
  qed
qed

lemma DumpToFile_eq:
  assumes "is_tree h t" "node_ptr this = addr_of t"
  shows "DumpToFile fuel sz writable fs index_name this h
     = (if \<not> writable index_name then Fault (False, h, fs)
        else if length (bfs [t]) \<le> fuel then
          if leaf_node_count this \<le> length (node_soa_ptr this) then
            Done (True, h, fs(index_name \<mapsto> dump_header this @ map NodeRec (serial sz [t])
                       @ map SoaRec (take (leaf_node_count this) (node_soa_ptr this))))
          else Fault (False, h, fs(index_name \<mapsto> []))
        else OutOfFuel (False, h, fs(index_name \<mapsto> [])))"
  using dump_loop_forest[of "[t]" h fuel sz "[]"] assms
  by (simp add: DumpToFile_def fopen_wb_def)

lemma DumpToFile_unwritable:
  "\<not> writable index_name
   \<Longrightarrow> DumpToFile fuel sz writable fs index_name this h = Fault (False, h, fs)"
  by (simp add: DumpToFile_def fopen_wb_def)

lemma load_dumped:
  assumes "fs index_name = Some (dump_header this @ map NodeRec nodes @ map SoaRec soas)"
    and "total_node_count this = length nodes" and "leaf_node_count this = length soas"
  shows "DumpFromFile sz fs index_name p that h0
     = Some (True,
          that\<lparr>level_node_count := level_node_count this, total_node_count := total_node_count this,
               leaf_node_count := leaf_node_count this, node_ptr := p, node_soa_ptr := soas\<rparr>,
          store_nodes sz p nodes h0)"
proof -
  have 1: "read_uis (length (level_node_count this))
      (map UI (level_node_count this) @ UI (total_node_count this) # UI (leaf_node_count this)
         # map NodeRec nodes @ map SoaRec soas)
     = Some (level_node_count this, UI (total_node_count this) # UI (leaf_node_count this)
         # map NodeRec nodes @ map SoaRec soas)"
    by (rule read_uis_map)
  have 2: "read_nodes (length nodes) (map NodeRec nodes @ map SoaRec soas) = Some (nodes, map SoaRec soas)"
    by (rule read_nodes_map)
  have 3: "read_soas (length soas) (map SoaRec soas) = Some (soas, [])"
    using read_soas_map[of soas "[]"] by simp
  show ?thesis
    using assms 1 2 3 by (simp add: DumpFromFile_def dump_header_def)
qed

subsection \<open>Build\<close>

lemma Build_missing_file:
  assumes "fs (GetIndexName env ds) = None"
  shows "Build env fuel sz writable fs p ds this h
         = move_to_gpu env (build_index env fuel sz writable fs (GetIndexName env ds) ds this h)"
  using assms by (simp add: Build_def DumpFromFile_def)

lemma build_index_Returns:
  assumes "AssignHilbertIndexToBranches env (CreateBranches env ds) = (True, bs1)"
    and "Sorter_Sort env bs1 = (True, bs2)"
    and "Top_Down env bs2 this h = (True, this3, h3)"
    and "CopyBranchToNodeSOA env bs2
           (this3\<lparr>node_soa_ptr := replicate (leaf_node_count this3) (default_Node_SOA env)\<rparr>)
         = (ret, this5)"
    and "is_tree h3 t" and "node_ptr this5 = addr_of t"
    and "length (bfs [t]) \<le> fuel"
    and "leaf_node_count this5 \<le> length (node_soa_ptr this5)"
    and "writable name"
  shows "build_index env fuel sz writable fs name ds this h
         = Returns (this5, h3,
              fs(name \<mapsto> dump_header this5 @ map NodeRec (serial sz [t])
                   @ map SoaRec (take (leaf_node_count this5) (node_soa_ptr this5))))"
proof -
  have d: "DumpToFile fuel sz writable fs name this5 h3
           = Done (True, h3,
              fs(name \<mapsto> dump_header this5 @ map NodeRec (serial sz [t])
                   @ map SoaRec (take (leaf_node_count this5) (node_soa_ptr this5))))"
    using assms(7,8,9) by (simp only: DumpToFile_eq[OF assms(5,6)] if_True not_True_eq_False if_False)
  show ?thesis
    unfolding build_index_def Let_def
    by (simp only: assms(1,2,3,4) d split_conv not_True_eq_False if_False outcome.case)
qed

lemma build_index_unwritable:
  assumes "AssignHilbertIndexToBranches env (CreateBranches env ds) = (True, bs1)"
    and "Sorter_Sort env bs1 = (True, bs2)"
    and "Top_Down env bs2 this h = (True, this3, h3)"
    and "\<not> writable name"
  shows "build_index env fuel sz writable fs name ds this h = DumpFaults"
proof -
  obtain ret this5 where c: "CopyBranchToNodeSOA env bs2
           (this3\<lparr>node_soa_ptr := replicate (leaf_node_count this3) (default_Node_SOA env)\<rparr>)
         = (ret, this5)"
    by (cases "CopyBranchToNodeSOA env bs2
           (this3\<lparr>node_soa_ptr := replicate (leaf_node_count this3) (default_Node_SOA env)\<rparr>)")
  have d: "DumpToFile fuel sz writable fs name this5 h3 = Fault (False, h3, fs)"
    using assms(4) by (rule DumpToFile_unwritable)
  show ?thesis
    unfolding build_index_def Let_def
    by (simp only: assms(1,2,3) c d split_conv not_True_eq_False if_False outcome.case)
qed

lemma Build_unwritable:
  assumes "fs (GetIndexName env ds) = None"
    and "AssignHilbertIndexToBranches env (CreateBranches env ds) = (True, bs1)"
    and "Sorter_Sort env bs1 = (True, bs2)"
    and "Top_Down env bs2 this h = (True, this3, h3)"
    and "\<not> writable (GetIndexName env ds)"
  shows "Build env fuel sz writable fs p ds this h = DumpFaults"
proof -
  have b: "Build env fuel sz writable fs p ds this h
         = move_to_gpu env (build_index env fuel sz writable fs (GetIndexName env ds) ds this h)"
    using assms(1) by (rule Build_missing_file)
  have i: "build_index env fuel sz writable fs (GetIndexName env ds) ds this h = DumpFaults"
    using assms(2,3,4,5) by (rule build_index_unwritable)
  show ?thesis by (simp only: b i move_to_gpu_def build_outcome.case)
qed

subsection \<open>The numbering of the leaf branches\<close>









section \<open>Claims about the brute-force scan\<close>

text \<open>
  Claim C9, as amended. For a positive number of threads, \<open>BruteForceSearchOnCPU\<close>
  cuts the leaf range \<open>[0, leaf_node_count)\<close> into one range per thread; the ranges
  are contiguous, disjoint and cover the leaf range (their concatenation is
  \<open>[0..<leaf_node_count]\<close>). Thread 0, the first one, gets
  \<open>leaf_node_count / number_of_threads + leaf_node_count % number_of_threads\<close> nodes,
  and every later thread gets \<open>leaf_node_count / number_of_threads\<close>. The function
  returns the sorted concatenation of the per-thread offset lists, and that
  concatenation is in ascending order already.
\<close>

theorem C9_first_thread_takes_remainder:
  assumes "0 < T"
  shows "length (thread_ranges (leaf_node_count this) T) = T
    \<and> (\<forall>i<T. thread_ranges (leaf_node_count this) T ! i =
          (if i = 0 then 0 else i * (leaf_node_count this div T) + leaf_node_count this mod T,
           Suc i * (leaf_node_count this div T) + leaf_node_count this mod T))
    \<and> concat (map (\<lambda>(s, e). [s..<e]) (thread_ranges (leaf_node_count this) T)) = [0..<leaf_node_count this]
    \<and> (\<exists>hit. BruteForceSearchOnCPU ov T th this q =
          Some (True,
            sort (concat (map (\<lambda>(i, (s, e)). fst (Thread_BruteForce ov (node_soa_ptr this) q ([], th i) s e))
                   (zip [0..<T] (thread_ranges (leaf_node_count this) T)))), hit))
    \<and> sorted (concat (map (\<lambda>(i, (s, e)). fst (Thread_BruteForce ov (node_soa_ptr this) q ([], th i) s e))
                   (zip [0..<T] (thread_ranges (leaf_node_count this) T))))"
proof (intro conjI)
  show "length (thread_ranges (leaf_node_count this) T) = T"
    by (simp add: thread_ranges_def Let_def length_launch)
  show "\<forall>i<T. thread_ranges (leaf_node_count this) T ! i =
          (if i = 0 then 0 else i * (leaf_node_count this div T) + leaf_node_count this mod T,
           Suc i * (leaf_node_count this div T) + leaf_node_count this mod T)"
    using thread_ranges_nth by blast
  show "concat (map (\<lambda>(s, e). [s..<e]) (thread_ranges (leaf_node_count this) T)) = [0..<leaf_node_count this]"
    by (rule thread_ranges_cover[OF assms])
  show "\<exists>hit. BruteForceSearchOnCPU ov T th this q =
          Some (True,
            sort (concat (map (\<lambda>(i, (s, e)). fst (Thread_BruteForce ov (node_soa_ptr this) q ([], th i) s e))
                   (zip [0..<T] (thread_ranges (leaf_node_count this) T)))), hit)"
    by (rule BruteForce_result[OF assms])
  show "sorted (concat (map (\<lambda>(i, (s, e)). fst (Thread_BruteForce ov (node_soa_ptr this) q ([], th i) s e))
                   (zip [0..<T] (thread_ranges (leaf_node_count this) T))))"
    unfolding concat_results[OF assms] by (rule sorted_range_hits)
qed

text \<open>
  The claim as worded gives the remainder to the last thread. For five leaf nodes and
  two threads the code lets thread 0 scan \<open>[0, 3)\<close> and thread 1 scan \<open>[3, 5)\<close>,
  where the worded partition is \<open>[0, 2)\<close> and \<open>[2, 5)\<close>.
\<close>

theorem C9_last_thread_counterexample:
  "thread_ranges 5 2 = [(0, 3), (3, 5)] \<and> spec_thread_ranges 5 2 = [(0, 2), (2, 5)]
   \<and> thread_ranges 5 2 \<noteq> spec_thread_ranges 5 2"
  by code_simp

text \<open>Two threads on the three example leaves, with the query \<open>[1, 2]\<close>.\<close>

theorem C9_witness:
  "(0::nat) < 2
   \<and> thread_ranges (leaf_node_count example_leaves) 2 = [(0, 2), (2, 3)]
   \<and> (\<exists>hit. BruteForceSearchOnCPU interval_overlap 2 (\<lambda>i. 0) example_leaves [1, 2]
          = Some (True, [0, 2], hit))"
proof -
  have r: "thread_ranges (leaf_node_count example_leaves) 2 = [(0, 2), (2, 3)]"
    by code_simp
  have s: "range_hits interval_overlap (node_soa_ptr example_leaves) [1, 2] 0
             (leaf_node_count example_leaves) = [0, 2]"
    by code_simp
  have "\<exists>hit. BruteForceSearchOnCPU interval_overlap 2 (\<lambda>i. 0) example_leaves [1, 2]
          = Some (True, [0, 2], hit)"
    using C9_first_thread_takes_remainder[of 2 example_leaves interval_overlap "\<lambda>i. 0" "[1, 2]"]
    unfolding concat_results[of 2, simplified] s by simp
  with r show ?thesis by simp
qed

section \<open>Claim about the cross-validation of the two scans\<close>

text \<open>
  Claim C1. A launch over the whole leaf buffer counts, summed over its blocks, the
  overlapping branches of all leaf nodes (\<open>device_scan_total_eq\<close>), and
  \<open>Thread_BruteForce\<close> adds the same number to the counter it is handed
  (\<open>Thread_BruteForce_eq\<close>). \<open>BruteForceSearchOnCPU\<close> however hands every thread
  an entry of the array \<open>thread_hit\<close> that was never initialised, so its \<open>hit\<close> is
  the count plus whatever the array held (\<open>BruteForce_hit\<close>); the two totals agree
  when the array happens to hold zeros
  (\<open>device_scan_agrees_with_zeroed_brute_force\<close>). On the three example leaves with
  the query \<open>[1, 2]\<close>, one host thread and the stack slot holding 7, the device
  reports 2 hits and the host 9.
\<close>

theorem C1_uninitialised_thread_hit:
  "device_scan_total interval_overlap 1 2 (\<lambda>i. 0) (node_soa_ptr example_leaves) [1, 2] 0
       (leaf_node_count example_leaves) = Some 2
   \<and> BruteForceSearchOnCPU interval_overlap 1 (\<lambda>i. 7) example_leaves [1, 2] = Some (True, [0, 2], 9)"
proof -
  have s: "range_hits interval_overlap (node_soa_ptr example_leaves) [1, 2] 0
             (leaf_node_count example_leaves) = [0, 2]"
    by code_simp
  have n: "\<forall>n \<in> set (node_soa_ptr example_leaves). SOA_GetBranchCount n \<le> 2"
    by (simp add: example_leaves_def SOA_GetBranchCount_def)
  have l: "0 + leaf_node_count example_leaves \<le> length (node_soa_ptr example_leaves)"
    by (simp add: example_leaves_def)
  have "device_scan_total interval_overlap 1 2 (\<lambda>i. 0) (node_soa_ptr example_leaves) [1, 2] 0
       (leaf_node_count example_leaves) = Some 2"
    using device_scan_total_eq[OF _ _ n l, of 1 "[1, 2]" interval_overlap "\<lambda>i. 0"]
    by (simp add: s wrap_ui_def)
  moreover have "BruteForceSearchOnCPU interval_overlap 1 (\<lambda>i. 7) example_leaves [1, 2] = Some (True, [0, 2], 9)"
    using BruteForce_hit[of 1 interval_overlap "\<lambda>i. 7" example_leaves "[1, 2]"]
    by (simp add: s wrap_ui_def)
  ultimately show ?thesis by simp
qed

section \<open>Claims about the search loops\<close>

text \<open>
  The first two theorems of this section are about trees whose leaf branch indices do not
  exceed \<open>degree * leaf_node_count\<close>, which is what numbering the branches of
  \<open>leaf_node_count\<close> leaf nodes of fanout \<open>degree\<close> from 1 gives and what
  \<open>Search\<close> relies on when it turns an index into the leaf offset
  \<open>(start_node_index - 1) / degree\<close>. \<open>leaf_node_count\<close> is an \<open>unsigned int\<close>,
  hence below \<open>2 ^ 32\<close>, and the device buffer holds \<open>leaf_node_count\<close> nodes.

  Claim C6. Whatever the bound on the iterations, no launch of a run of \<open>Search\<close>
  reads outside the device buffer, every launch has
  \<open>0 \<le> start_node_offset\<close> and \<open>start_node_offset + chunk_size \<le> leaf_node_count\<close>,
  and every leaf index a block dereferences is below \<open>leaf_node_count\<close>. When
  \<open>chunk_size\<close> is positive, \<open>degree * leaf_node_count + 1\<close> iterations per query are
  enough for the run to finish.
\<close>

theorem C6_scans_stay_inside_leaf_buffer:
  assumes "0 < GetNumberOfDegrees cfg"
    and "\<forall>i \<in> set (leaf_indices root). i \<le> int (GetNumberOfDegrees cfg) * int (leaf_node_count this)"
    and "leaf_node_count this < 2 ^ 32"
    and "length g_soa = leaf_node_count this"
  shows "\<not> is_Fault (Search fuel ov ov_soa cfg junk root g_soa this query d_query number_of_search)
     \<and> (\<forall>(s, c) \<in> set (sr_launches (outcome_state
              (Search fuel ov ov_soa cfg junk root g_soa this query d_query number_of_search))).
           0 \<le> s \<and> s + int c \<le> int (leaf_node_count this)
           \<and> (\<forall>bid < GetNumberOfBlocks cfg.
                 \<forall>p \<in> set (stride (GetNumberOfBlocks cfg) c bid (s + int bid)).
                   0 \<le> p \<and> p < int (leaf_node_count this)))
     \<and> (0 < chunk_size this
           \<and> nat (int (GetNumberOfDegrees cfg) * int (leaf_node_count this)) < fuel
          \<longrightarrow> is_Done (Search fuel ov ov_soa cfg junk root g_soa this query d_query number_of_search))"
proof -
  note S = Search_inv[OF assms, of fuel ov ov_soa junk query d_query number_of_search]
  have "0 \<le> p \<and> p < int (leaf_node_count this)"
    if "0 \<le> s" "s + int c \<le> int (leaf_node_count this)" "bid < GetNumberOfBlocks cfg"
      "p \<in> set (stride (GetNumberOfBlocks cfg) c bid (s + int bid))" for s c bid p
    using stride_below[OF that(1,3,4)] that(1,2) by simp
  with S(1,5,6) show ?thesis by fastforce
qed

text \<open>
  One query on the example tree with \<open>chunk_size = 2\<close>: the second jump starts at
  leaf 2 of 3 and is clipped to one node.
\<close>

theorem C6_witness:
  "leaf_indices example_tree = [1, 2, 3, 4, 5]
   \<and> \<not> is_Fault (Search 10 interval_overlap interval_overlap example_cfg (\<lambda>i. 0) example_tree
         (node_soa_ptr example_leaves) example_leaves [1, 2] [1, 2] 1)
   \<and> sr_launches (outcome_state (Search 10 interval_overlap interval_overlap example_cfg (\<lambda>i. 0)
         example_tree (node_soa_ptr example_leaves) example_leaves [1, 2] [1, 2] 1)) = [(0, 2), (2, 1)]"
proof -
  have h1: "0 < GetNumberOfDegrees example_cfg" by code_simp
  have h2: "\<forall>i \<in> set (leaf_indices example_tree).
      i \<le> int (GetNumberOfDegrees example_cfg) * int (leaf_node_count example_leaves)" by code_simp
  have h3: "leaf_node_count example_leaves < 2 ^ 32" by (simp add: example_leaves_def)
  have h4: "length (node_soa_ptr example_leaves) = leaf_node_count example_leaves" by code_simp
  have e1: "leaf_indices example_tree = [1, 2, 3, 4, 5]" by code_simp
  have e2: "sr_launches (outcome_state (Search 10 interval_overlap interval_overlap example_cfg (\<lambda>i. 0)
         example_tree (node_soa_ptr example_leaves) example_leaves [1, 2] [1, 2] 1)) = [(0, 2), (2, 1)]"
    by code_simp
  from C6_scans_stay_inside_leaf_buffer[OF h1 h2 h3 h4, of 10 interval_overlap interval_overlap
      "\<lambda>i. 0" "[1, 2]" "[1, 2]" 1] e1 e2
  show ?thesis by simp
qed

text \<open>
  Claim C7. Over a whole run of \<open>Search\<close> the chunk sizes of the launches, starting
  from the value of the field on entry, never grow; each launch uses the clipping of
  the value the launch before it left in the field (across the queries too, since
  nothing resets the field), and the field ends with the value of the last launch.
\<close>

theorem C7_chunk_size_never_grows:
  assumes "0 < GetNumberOfDegrees cfg"
    and "\<forall>i \<in> set (leaf_indices root). i \<le> int (GetNumberOfDegrees cfg) * int (leaf_node_count this)"
    and "leaf_node_count this < 2 ^ 32"
    and "length g_soa = leaf_node_count this"
  shows "chunk_size (sr_this (outcome_state
            (Search fuel ov ov_soa cfg junk root g_soa this query d_query number_of_search)))
          \<le> chunk_size this
     \<and> sorted_wrt (\<ge>) (chunk_size this # map snd (sr_launches (outcome_state
            (Search fuel ov ov_soa cfg junk root g_soa this query d_query number_of_search))))
     \<and> chained (leaf_node_count this) (chunk_size this) (sr_launches (outcome_state
            (Search fuel ov ov_soa cfg junk root g_soa this query d_query number_of_search)))
     \<and> chunk_size (sr_this (outcome_state
            (Search fuel ov ov_soa cfg junk root g_soa this query d_query number_of_search)))
          = last (chunk_size this # map snd (sr_launches (outcome_state
            (Search fuel ov ov_soa cfg junk root g_soa this query d_query number_of_search))))
     \<and> (0 < chunk_size this
           \<and> nat (int (GetNumberOfDegrees cfg) * int (leaf_node_count this)) < fuel
          \<longrightarrow> is_Done (Search fuel ov ov_soa cfg junk root g_soa this query d_query number_of_search))"
proof -
  note S = Search_inv[OF assms, of fuel ov ov_soa junk query d_query number_of_search]
  from sorted_wrt_ge_last[OF S(4)] S(3) S(2) S(4) S(6) show ?thesis by simp
qed

text \<open>
  Two queries on the example tree with \<open>chunk_size = 2\<close>: the first query shrinks the
  field to 1, and the only launch of the second query uses 1.
\<close>

theorem C7_witness:
  "sr_launches (outcome_state (Search 10 interval_overlap interval_overlap example_cfg (\<lambda>i. 0)
      example_tree (node_soa_ptr example_leaves) example_leaves [1, 2, 7, 9] [1, 2, 7, 9] 2))
     = [(0, 2), (2, 1), (1, 1)]
   \<and> chunk_size example_leaves = 2
   \<and> chunk_size (sr_this (outcome_state (Search 10 interval_overlap interval_overlap example_cfg
      (\<lambda>i. 0) example_tree (node_soa_ptr example_leaves) example_leaves [1, 2, 7, 9] [1, 2, 7, 9] 2)))
     = 1
   \<and> sorted_wrt (\<ge>) (chunk_size example_leaves # map snd (sr_launches (outcome_state
      (Search 10 interval_overlap interval_overlap example_cfg (\<lambda>i. 0) example_tree
         (node_soa_ptr example_leaves) example_leaves [1, 2, 7, 9] [1, 2, 7, 9] 2))))"
proof -
  have h1: "0 < GetNumberOfDegrees example_cfg" by code_simp
  have h2: "\<forall>i \<in> set (leaf_indices example_tree).
      i \<le> int (GetNumberOfDegrees example_cfg) * int (leaf_node_count example_leaves)" by code_simp
  have h3: "leaf_node_count example_leaves < 2 ^ 32" by (simp add: example_leaves_def)
  have h4: "length (node_soa_ptr example_leaves) = leaf_node_count example_leaves" by code_simp
  have e1: "sr_launches (outcome_state (Search 10 interval_overlap interval_overlap example_cfg (\<lambda>i. 0)
      example_tree (node_soa_ptr example_leaves) example_leaves [1, 2, 7, 9] [1, 2, 7, 9] 2))
     = [(0, 2), (2, 1), (1, 1)]" by code_simp
  have e2: "chunk_size example_leaves = 2" by code_simp
  from C7_chunk_size_never_grows[OF h1 h2 h3 h4, of 10 interval_overlap interval_overlap
      "\<lambda>i. 0" "[1, 2, 7, 9]" "[1, 2, 7, 9]" 2]
  show ?thesis unfolding e1 e2 by simp
qed



section \<open>Claim about the traversal\<close>

text \<open>
  Claim C5, as amended. The loop of \<open>TraverseInternalNodes\<close> over the branches of an
  internal node descends into the child of a branch exactly when the branch passes the
  test (its index is beyond \<open>visited_leafIndex\<close> and its box overlaps the query) and
  no earlier branch of the node that passed the test had its call return a positive
  index: the search stops at the first match. The counter of node visits is what these
  calls, and no others, make of it. At a leaf node the result is the index of the first
  branch whose index is beyond \<open>visited_leafIndex\<close>, and 0 when there is none. The
  result is 0 whenever no leaf branch of the subtree has an index beyond
  \<open>visited_leafIndex\<close>, and on the result 0 the loop of \<open>Search\<close> for the query
  ends without a further launch.
\<close>

theorem C5_first_match_descent:
  "length (descents ov bcs query visited_leafIndex) = length bcs
   \<and> (\<forall>k<length bcs.
         descents ov bcs query visited_leafIndex ! k \<longleftrightarrow>
           (qualifies ov query visited_leafIndex (fst (bcs ! k))
            \<and> (\<forall>j<k. qualifies ov query visited_leafIndex (fst (bcs ! j))
                  \<longrightarrow> fst (TraverseInternalNodes ov (snd (bcs ! j)) query visited_leafIndex 0) \<le> 0)))
   \<and> snd (TraverseInternalNodes ov (InternalNode a bcs) query visited_leafIndex node_visit_count)
       = foldl (\<lambda>c (d, (b, child)).
                  if d then snd (TraverseInternalNodes ov child query visited_leafIndex c) else c)
           (wrap_ui (node_visit_count + 1)) (zip (descents ov bcs query visited_leafIndex) bcs)
   \<and> TraverseInternalNodes ov (LeafNode a bs) query visited_leafIndex node_visit_count
       = (case find (\<lambda>b. branch_index b > visited_leafIndex) bs of
            None \<Rightarrow> 0 | Some b \<Rightarrow> branch_index b,
          wrap_ui (node_visit_count + 1))
   \<and> ((\<forall>i \<in> set (leaf_indices root). i \<le> visited_leafIndex)
        \<longrightarrow> fst (TraverseInternalNodes ov root query visited_leafIndex node_visit_count) = 0)
   \<and> (fst (TraverseInternalNodes ov root query visited_leafIndex node_visit_count) = 0
        \<longrightarrow> is_Done (jump_loop (Suc fuel) ov ov_soa cfg junk root g_soa leaf_count query d_query
                        visited_leafIndex node_visit_count st)
          \<and> st_launches (outcome_state
                (jump_loop (Suc fuel) ov ov_soa cfg junk root g_soa leaf_count query d_query
                   visited_leafIndex node_visit_count st)) = st_launches st)"
  using length_descents[of ov bcs query visited_leafIndex]
    descents_nth[of _ bcs ov query visited_leafIndex]
    internal_loop_count[of ov bcs query visited_leafIndex 0 "wrap_ui (node_visit_count + 1)"]
    Traverse_zero[of root visited_leafIndex ov query node_visit_count]
    jump_loop_break[of ov root query visited_leafIndex node_visit_count fuel ov_soa cfg junk g_soa
        leaf_count d_query st]
  by (simp add: leaf_loop_find)

text \<open>
  As worded, the claim has the traversal descend into every child whose branch passes
  the test. At the root of the example tree the first and the third branch pass the
  test for the query \<open>[1, 2]\<close> and \<open>visited_leafIndex = 0\<close>; the call on the first
  child returns the index 1, and the third child is not visited: two nodes are visited,
  the root and the first leaf.
\<close>

theorem C5_descent_counterexample:
  "spec_descents interval_overlap (tree_branches example_tree) [1, 2] 0 = [True, False, True]
   \<and> descents interval_overlap (tree_branches example_tree) [1, 2] 0 = [True, False, False]
   \<and> TraverseInternalNodes interval_overlap example_tree [1, 2] 0 0 = (1, 2)"
  by code_simp

text \<open>
  The same query after the first jump (\<open>visited_leafIndex = 4\<close>) and after the second
  (\<open>visited_leafIndex = 6\<close>, where the result 0 ends the loop).
\<close>

theorem C5_witness:
  "descents interval_overlap (tree_branches example_tree) [1, 2] 4 = [False, False, True]
   \<and> TraverseInternalNodes interval_overlap example_tree [1, 2] 4 0 = (5, 2)
   \<and> TraverseInternalNodes interval_overlap example_tree [1, 2] 6 0 = (0, 1)
   \<and> is_Done (jump_loop (Suc 0) interval_overlap interval_overlap example_cfg (\<lambda>i. 0) example_tree
        (node_soa_ptr example_leaves) 3 [1, 2] [1, 2] 6 0
        \<lparr>st_chunk_size = 1, st_g = [(0, 0), (0, 0)], st_total_node_visit_count_cpu = 0,
         st_launches = []\<rparr>)"
proof -
  have e1: "descents interval_overlap (tree_branches example_tree) [1, 2] 4 = [False, False, True]"
    by code_simp
  have e2: "TraverseInternalNodes interval_overlap example_tree [1, 2] 4 0 = (5, 2)" by code_simp
  have e3: "TraverseInternalNodes interval_overlap example_tree [1, 2] 6 0 = (0, 1)" by code_simp
  have "fst (TraverseInternalNodes interval_overlap example_tree [1, 2] 6 0) = 0" unfolding e3 by simp
  with C5_first_match_descent[of interval_overlap "tree_branches example_tree" "[1, 2]" 6 0 0 "[]"
      example_tree 0 interval_overlap example_cfg "\<lambda>i. 0" "node_soa_ptr example_leaves" 3 "[1, 2]"
      "\<lparr>st_chunk_size = 1, st_g = [(0, 0), (0, 0)], st_total_node_visit_count_cpu = 0,
         st_launches = []\<rparr>"]
  have "is_Done (jump_loop (Suc 0) interval_overlap interval_overlap example_cfg (\<lambda>i. 0) example_tree
        (node_soa_ptr example_leaves) 3 [1, 2] [1, 2] 6 0
        \<lparr>st_chunk_size = 1, st_g = [(0, 0), (0, 0)], st_total_node_visit_count_cpu = 0,
         st_launches = []\<rparr>)" by blast
  with e1 e2 e3 show ?thesis by simp
qed

section \<open>Claims about the index file\<close>

text \<open>
  The theorems of this section are about a memory that holds a tree at \<open>node_ptr\<close>
  (\<open>is_tree\<close>), which is what makes the loop over the queue end; the bound on its
  iterations is then any number from the number of nodes on. A dump that completes
  needs a file that can be opened for writing (\<open>writable\<close>).

  Claim C2, as amended. For a tree whose \<open>total_node_count\<close> is its number of nodes
  and whose leaf buffer has \<open>leaf_node_count\<close> elements, \<open>DumpToFile\<close> succeeds and
  \<open>DumpFromFile\<close> of the file it wrote returns \<open>true\<close> with the same height, the
  same \<open>level_node_count\<close>, \<open>total_node_count\<close> and \<open>leaf_node_count\<close> and
  the same leaf buffer. The node loaded at breadth-first position \<open>i\<close> has the type,
  the branch count, the branch indices and the boxes of the live node at that position,
  and it is that node itself when the node is a leaf. Its child offsets are not those
  of the live node: they are the offsets the dump wrote, and they lead from the loaded
  node at position \<open>i\<close> to the loaded node at the position \<open>k\<close> of the live child.
\<close>

theorem C2_round_trip_up_to_child_offsets:
  assumes "is_tree h t" and "node_ptr this = addr_of t"
    and "total_node_count this = length (bfs [t])"
    and "length (node_soa_ptr this) = leaf_node_count this"
    and "length (bfs [t]) \<le> fuel" and "0 < sz"
    and "writable index_name"
  shows "\<exists>fs' this' h'.
      DumpToFile fuel sz writable fs index_name this h = Done (True, h, fs')
    \<and> DumpFromFile sz fs' index_name p that h0 = Some (True, this', h')
    \<and> length (level_node_count this') = length (level_node_count this)
    \<and> level_node_count this' = level_node_count this
    \<and> total_node_count this' = total_node_count this
    \<and> leaf_node_count this' = leaf_node_count this
    \<and> node_soa_ptr this' = node_soa_ptr this
    \<and> node_ptr this' = p
    \<and> (\<forall>i < total_node_count this.
          \<exists>n. h' (p + int (i * sz)) = Some n
             \<and> node_type n = node_type (node_of (bfs [t] ! i))
             \<and> map without_offset (branches n) = map without_offset (branches (node_of (bfs [t] ! i)))
             \<and> (node_type (node_of (bfs [t] ! i)) \<noteq> NODE_TYPE_INTERNAL \<longrightarrow> n = node_of (bfs [t] ! i))
             \<and> (\<forall>j < length (children (bfs [t] ! i)).
                   \<exists>k. i < k \<and> k < total_node_count this
                      \<and> bfs [t] ! k = children (bfs [t] ! i) ! j
                      \<and> GetBranchChildNode (p + int (i * sz)) n j = p + int (k * sz)))"
proof -
  let ?soas = "node_soa_ptr this"
  let ?fs = "fs(index_name \<mapsto> dump_header this @ map NodeRec (serial sz [t]) @ map SoaRec ?soas)"
  let ?loaded = "that\<lparr>level_node_count := level_node_count this, total_node_count := total_node_count this,
               leaf_node_count := leaf_node_count this, node_ptr := p, node_soa_ptr := ?soas\<rparr>"
  let ?mem = "store_nodes sz p (serial sz [t]) h0"
  have d: "DumpToFile fuel sz writable fs index_name this h = Done (True, h, ?fs)"
    using assms(4,5,7) by (simp add: DumpToFile_eq[OF assms(1,2)])
  have l: "DumpFromFile sz ?fs index_name p that h0 = Some (True, ?loaded, ?mem)"
    by (rule load_dumped) (use assms(3,4) in \<open>simp_all add: length_serial\<close>)
  have nodes: "\<exists>n. ?mem (p + int (i * sz)) = Some n
             \<and> node_type n = node_type (node_of (bfs [t] ! i))
             \<and> map without_offset (branches n) = map without_offset (branches (node_of (bfs [t] ! i)))
             \<and> (node_type (node_of (bfs [t] ! i)) \<noteq> NODE_TYPE_INTERNAL \<longrightarrow> n = node_of (bfs [t] ! i))
             \<and> (\<forall>j < length (children (bfs [t] ! i)).
                   \<exists>k. i < k \<and> k < total_node_count this
                      \<and> bfs [t] ! k = children (bfs [t] ! i) ! j
                      \<and> GetBranchChildNode (p + int (i * sz)) n j = p + int (k * sz))"
    if i: "i < total_node_count this" for i
  proof -
    have ib: "i < length (bfs [t])" using i assms(3) by simp
    have "i < length (serial sz [t])" using ib by (simp only: length_serial)
    then have s: "?mem (p + int (i * sz)) = Some (serial sz [t] ! i)"
      by (rule store_nodes_nth[OF assms(6)])
    have ch: "\<exists>k. i < k \<and> k < total_node_count this
                      \<and> bfs [t] ! k = children (bfs [t] ! i) ! j
                      \<and> GetBranchChildNode (p + int (i * sz)) (serial sz [t] ! i) j = p + int (k * sz)"
      if j: "j < length (children (bfs [t] ! i))" for j
    proof -
      from serial_nth(4)[OF ib, of sz] j obtain d where
        d: "branch_child_offset (branches (serial sz [t] ! i) ! j) = int d * int sz"
           "0 < d" "i + d < length (bfs [t])" "bfs [t] ! (i + d) = children (bfs [t] ! i) ! j"
        by blast
      then show ?thesis using assms(3)
        by (intro exI[of _ "i + d"])
           (simp add: GetBranchChildNode_def GetBranchChildOffset_def algebra_simps)
    qed
    show ?thesis
      using s serial_nth(1,2,3)[OF ib, of sz] ch by simp
  qed
  show ?thesis
    by (intro exI[of _ ?fs] exI[of _ ?loaded] exI[of _ ?mem]) (use d l nodes in simp)
qed

text \<open>
  As worded, the claim has the same node record at every breadth-first position. The
  root of the example tree, whose children lie at scattered addresses, holds the child
  offsets 640, 128 and 320; the root that is loaded back holds 64, 128 and 192.
\<close>

theorem C2_offsets_differ_counterexample:
  "map_option (\<lambda>(r, this', h'). h' 1000)
      (round_trip 4 64 ''index'' 1000 example_hybrid (tree_heap example_tree) example_hybrid
         (\<lambda>a. None))
     = Some (Some \<lparr>node_type = NODE_TYPE_INTERNAL,
          branches = [\<lparr>branch_index = 2, branch_child_offset = 64, branch_box = (0, 6)\<rparr>,
                      \<lparr>branch_index = 4, branch_child_offset = 128, branch_box = (7, 9)\<rparr>,
                      \<lparr>branch_index = 5, branch_child_offset = 192, branch_box = (1, 3)\<rparr>]\<rparr>)
   \<and> tree_heap example_tree (node_ptr example_hybrid)
     = Some \<lparr>node_type = NODE_TYPE_INTERNAL,
          branches = [\<lparr>branch_index = 2, branch_child_offset = 640, branch_box = (0, 6)\<rparr>,
                      \<lparr>branch_index = 4, branch_child_offset = 128, branch_box = (7, 9)\<rparr>,
                      \<lparr>branch_index = 5, branch_child_offset = 320, branch_box = (1, 3)\<rparr>]\<rparr>
   \<and> map_option (\<lambda>(r, this', h'). h' 1000)
      (round_trip 4 64 ''index'' 1000 example_hybrid (tree_heap example_tree) example_hybrid
         (\<lambda>a. None))
     \<noteq> Some (tree_heap example_tree (node_ptr example_hybrid))"
  by code_simp

text \<open>The example tree dumped, and loaded by another object.\<close>

theorem C2_witness:
  "is_tree (tree_heap example_tree) example_tree
   \<and> total_node_count example_hybrid = length (bfs [example_tree])
   \<and> (\<exists>this' h'. round_trip 4 64 ''index'' 1000 example_hybrid (tree_heap example_tree)
          example_deep_hybrid (\<lambda>a. None) = Some (True, this', h')
        \<and> level_node_count this' = [1, 3] \<and> total_node_count this' = 4
        \<and> leaf_node_count this' = 3 \<and> node_ptr this' = 1000
        \<and> node_soa_ptr this' = node_soa_ptr example_hybrid)"
proof -
  have h1: "is_tree (tree_heap example_tree) example_tree" by code_simp
  have h2: "node_ptr example_hybrid = addr_of example_tree" by code_simp
  have h3: "total_node_count example_hybrid = length (bfs [example_tree])" by code_simp
  have h4: "length (node_soa_ptr example_hybrid) = leaf_node_count example_hybrid" by code_simp
  have h5: "length (bfs [example_tree]) \<le> 4" by code_simp
  have h6: "(0::nat) < 64" by simp
  have e: "level_node_count example_hybrid = [1, 3]" "total_node_count example_hybrid = 4"
    "leaf_node_count example_hybrid = 3" by code_simp+
  have h7: "(\<lambda>name :: string. True) ''index''" by simp
  from C2_round_trip_up_to_child_offsets[where writable = "\<lambda>name. True"
      and index_name = "''index''" and fs = "\<lambda>name. None" and p = 1000
      and that = example_deep_hybrid and ?h0.0 = "\<lambda>a. None", OF h1 h2 h3 h4 h5 h6 h7]
  obtain fs' this' h' where
    r: "DumpToFile 4 64 (\<lambda>name. True) (\<lambda>name. None) ''index'' example_hybrid (tree_heap example_tree)
          = Done (True, tree_heap example_tree, fs')"
       "DumpFromFile 64 fs' ''index'' 1000 example_deep_hybrid (\<lambda>a. None) = Some (True, this', h')"
       "level_node_count this' = level_node_count example_hybrid"
       "total_node_count this' = total_node_count example_hybrid"
       "leaf_node_count this' = leaf_node_count example_hybrid"
       "node_soa_ptr this' = node_soa_ptr example_hybrid"
       "node_ptr this' = 1000"
    by blast
  then have "round_trip 4 64 ''index'' 1000 example_hybrid (tree_heap example_tree)
          example_deep_hybrid (\<lambda>a. None) = Some (True, this', h')"
    by (simp add: round_trip_def)
  with r e h1 h3 show ?thesis by auto
qed

text \<open>
  Claim C3, as amended. \<open>DumpToFile\<close> writes the nodes in breadth-first order, and for
  the node at position \<open>i\<close> and each of its branches the child offset in the file is
  \<open>(k - i) * sizeof(Node)\<close>, where \<open>k > i\<close> is a breadth-first position of the
  child: the offset is relative to the node that holds it, in keeping with how
  \<open>GetBranchChildNode\<close> resolves it. It is the child's position times the node size
  for the root only.
\<close>

theorem C3_child_offsets_are_relative:
  assumes "is_tree h t" and "node_ptr this = addr_of t"
    and "length (bfs [t]) \<le> fuel" and "leaf_node_count this \<le> length (node_soa_ptr this)"
    and "writable index_name"
  shows "(\<exists>fs'. DumpToFile fuel sz writable fs index_name this h = Done (True, h, fs')
            \<and> fs' index_name = Some (dump_header this @ map NodeRec (serial sz [t])
                 @ map SoaRec (take (leaf_node_count this) (node_soa_ptr this))))
     \<and> length (serial sz [t]) = length (bfs [t])
     \<and> (\<forall>i < length (bfs [t]). \<forall>j < length (children (bfs [t] ! i)).
           \<exists>k. i < k \<and> k < length (bfs [t])
              \<and> bfs [t] ! k = children (bfs [t] ! i) ! j
              \<and> branch_child_offset (branches (serial sz [t] ! i) ! j)
                   = (int k - int i) * int sz)"
proof (intro conjI allI impI)
  show "\<exists>fs'. DumpToFile fuel sz writable fs index_name this h = Done (True, h, fs')
            \<and> fs' index_name = Some (dump_header this @ map NodeRec (serial sz [t])
                 @ map SoaRec (take (leaf_node_count this) (node_soa_ptr this)))"
    using assms(3,4,5) by (simp add: DumpToFile_eq[OF assms(1,2)])
  show "length (serial sz [t]) = length (bfs [t])" by (rule length_serial)
next
  fix i j assume i: "i < length (bfs [t])" and j: "j < length (children (bfs [t] ! i))"
  from serial_nth(4)[OF i, of sz] j obtain d where
    d: "branch_child_offset (branches (serial sz [t] ! i) ! j) = int d * int sz"
       "0 < d" "i + d < length (bfs [t])" "bfs [t] ! (i + d) = children (bfs [t] ! i) ! j"
    by blast
  then show "\<exists>k. i < k \<and> k < length (bfs [t])
              \<and> bfs [t] ! k = children (bfs [t] ! i) ! j
              \<and> branch_child_offset (branches (serial sz [t] ! i) ! j)
                   = (int k - int i) * int sz"
    by (intro exI[of _ "i + d"]) simp
qed

text \<open>
  As worded, the claim has the offset equal the child's breadth-first position times
  the node size. In the tree of height three the node at position 1 has its only child
  at position 2 and nowhere else; the offset written for it is 64, one node size, where
  the worded offset is 128.
\<close>

theorem C3_absolute_offset_counterexample:
  "map node_type (snd (outcome_state
       (dump_loop 3 64 (tree_heap example_deep_tree) [node_ptr example_deep_hybrid] [])))
     = [NODE_TYPE_INTERNAL, NODE_TYPE_INTERNAL, NODE_TYPE_LEAF]
   \<and> branch_child_offset (branches (snd (outcome_state
       (dump_loop 3 64 (tree_heap example_deep_tree) [node_ptr example_deep_hybrid] [])) ! 1) ! 0) = 64
   \<and> filter (\<lambda>k. bfs [example_deep_tree] ! k = children (bfs [example_deep_tree] ! 1) ! 0) [0..<3] = [2]
   \<and> spec_child_offset 64 2 = 128"
  by code_simp

text \<open>The tree of height three: the offsets written, node by node.\<close>

theorem C3_witness:
  "is_tree (tree_heap example_deep_tree) example_deep_tree
   \<and> length (bfs [example_deep_tree]) = 3
   \<and> is_Done (DumpToFile 3 64 (\<lambda>name. True) (\<lambda>name. None) ''index'' example_deep_hybrid (tree_heap example_deep_tree))
   \<and> map (\<lambda>n. map branch_child_offset (branches n)) (serial 64 [example_deep_tree])
        = [[64], [64], [0, 0]]"
proof -
  have h1: "is_tree (tree_heap example_deep_tree) example_deep_tree" by code_simp
  have h2: "node_ptr example_deep_hybrid = addr_of example_deep_tree" by code_simp
  have h3: "length (bfs [example_deep_tree]) \<le> 3" by code_simp
  have h4: "leaf_node_count example_deep_hybrid \<le> length (node_soa_ptr example_deep_hybrid)" by code_simp
  have e1: "length (bfs [example_deep_tree]) = 3" by code_simp
  have e2: "map (\<lambda>n. map branch_child_offset (branches n)) (serial 64 [example_deep_tree])
        = [[64], [64], [0, 0]]" by code_simp
  have h5: "(\<lambda>name :: string. True) ''index''" by simp
  from C3_child_offsets_are_relative[where writable = "\<lambda>name. True"
      and index_name = "''index''" and fs = "\<lambda>name. None" and sz = 64, OF h1 h2 h3 h4 h5]
  have "is_Done (DumpToFile 3 64 (\<lambda>name. True) (\<lambda>name. None) ''index'' example_deep_hybrid (tree_heap example_deep_tree))"
    by auto
  with h1 e1 e2 show ?thesis by simp
qed

text \<open>
  Claim C4. Whatever the bound on the iterations, the memory that \<open>DumpToFile\<close>
  leaves is the memory it found: every node, with every child offset, is as before,
  also where the file cannot be opened. With a file that can be opened for writing, a
  bound of at least the number of nodes, and a leaf buffer of at least
  \<open>leaf_node_count\<close> elements, the dump completes.
\<close>

theorem C4_dump_leaves_memory_unchanged:
  assumes "is_tree h t" and "node_ptr this = addr_of t"
  shows "fst (snd (outcome_state (DumpToFile fuel sz writable fs index_name this h))) = h
     \<and> (writable index_name \<and> length (bfs [t]) \<le> fuel \<and> leaf_node_count this \<le> length (node_soa_ptr this)
          \<longrightarrow> is_Done (DumpToFile fuel sz writable fs index_name this h))"
  by (simp add: DumpToFile_eq[OF assms])

text \<open>The example tree, dumped with a bound of four iterations.\<close>

theorem C4_witness:
  "is_tree (tree_heap example_tree) example_tree
   \<and> node_ptr example_hybrid = addr_of example_tree
   \<and> length (bfs [example_tree]) = 4
   \<and> fst (snd (outcome_state
        (DumpToFile 4 64 (\<lambda>name. True) (\<lambda>name. None) ''index'' example_hybrid (tree_heap example_tree))))
       = tree_heap example_tree
   \<and> is_Done (DumpToFile 4 64 (\<lambda>name. True) (\<lambda>name. None) ''index'' example_hybrid (tree_heap example_tree))"
proof -
  have h1: "is_tree (tree_heap example_tree) example_tree" by code_simp
  have h2: "node_ptr example_hybrid = addr_of example_tree" by code_simp
  have h3: "length (bfs [example_tree]) = 4" by code_simp
  have h4: "leaf_node_count example_hybrid \<le> length (node_soa_ptr example_hybrid)" by code_simp
  from C4_dump_leaves_memory_unchanged[OF h1 h2, of 4 64 "\<lambda>name. True" "\<lambda>name. None" "''index''"] h1 h2 h3 h4
  show ?thesis by simp
qed

section \<open>Claims about the build\<close>

text \<open>
  Claim C8. If the file system has no file of the index name, \<open>DumpFromFile\<close> returns
  \<open>false\<close> and leaves the object and the node memory as they are, and \<open>Build\<close> is
  the fresh build, which ends with the dump, followed by the move of the leaves to the
  device. The missing file is not an error: when the steps of the fresh build succeed,
  \<open>Top_Down\<close> leaves a tree at \<open>node_ptr\<close>, the leaf buffer has
  \<open>leaf_node_count\<close> elements and the index file can be opened for writing,
  \<open>Build\<close> returns \<open>true\<close>, and the index file then exists and holds the dump
  of that tree. The last condition is needed: \<open>DumpToFile\<close> does not test the
  stream it opens, and where the file cannot be created the run ends in the dump
  (\<open>Build_unwritable\<close>).
\<close>

theorem C8_missing_file_leads_to_fresh_build:
  assumes "fs (GetIndexName env ds) = None"
  shows "DumpFromFile sz fs (GetIndexName env ds) p this h = Some (False, this, h)
       \<and> Build env fuel sz writable fs p ds this h
         = move_to_gpu env (build_index env fuel sz writable fs (GetIndexName env ds) ds this h)
       \<and> (\<forall>bs1 bs2 this3 h3 ret this5 t device.
            AssignHilbertIndexToBranches env (CreateBranches env ds) = (True, bs1)
            \<and> Sorter_Sort env bs1 = (True, bs2)
            \<and> Top_Down env bs2 this h = (True, this3, h3)
            \<and> CopyBranchToNodeSOA env bs2
                 (this3\<lparr>node_soa_ptr :=
                    replicate (leaf_node_count this3) (default_Node_SOA env)\<rparr>)
               = (ret, this5)
            \<and> writable (GetIndexName env ds)
            \<and> is_tree h3 t \<and> node_ptr this5 = addr_of t \<and> length (bfs [t]) \<le> fuel
            \<and> leaf_node_count this5 \<le> length (node_soa_ptr this5)
            \<and> MoveTreeToGPU env this5 0 (leaf_node_count this5) = (True, device)
            \<longrightarrow> Build env fuel sz writable fs p ds this h
                = Returns (True, this5, h3,
                    fs(GetIndexName env ds \<mapsto> dump_header this5 @ map NodeRec (serial sz [t])
                         @ map SoaRec (take (leaf_node_count this5) (node_soa_ptr this5))),
                    device))"
proof (intro conjI allI impI)
  show "DumpFromFile sz fs (GetIndexName env ds) p this h = Some (False, this, h)"
    using assms by (simp add: DumpFromFile_def)
next
  show "Build env fuel sz writable fs p ds this h
         = move_to_gpu env (build_index env fuel sz writable fs (GetIndexName env ds) ds this h)"
    using assms by (rule Build_missing_file)
next
  fix bs1 bs2 this3 h3 ret this5 t device
  assume a: "AssignHilbertIndexToBranches env (CreateBranches env ds) = (True, bs1)
            \<and> Sorter_Sort env bs1 = (True, bs2)
            \<and> Top_Down env bs2 this h = (True, this3, h3)
            \<and> CopyBranchToNodeSOA env bs2
                 (this3\<lparr>node_soa_ptr :=
                    replicate (leaf_node_count this3) (default_Node_SOA env)\<rparr>)
               = (ret, this5)
            \<and> writable (GetIndexName env ds)
            \<and> is_tree h3 t \<and> node_ptr this5 = addr_of t \<and> length (bfs [t]) \<le> fuel
            \<and> leaf_node_count this5 \<le> length (node_soa_ptr this5)
            \<and> MoveTreeToGPU env this5 0 (leaf_node_count this5) = (True, device)"
  have b: "build_index env fuel sz writable fs (GetIndexName env ds) ds this h
         = Returns (this5, h3,
              fs(GetIndexName env ds \<mapsto> dump_header this5 @ map NodeRec (serial sz [t])
                   @ map SoaRec (take (leaf_node_count this5) (node_soa_ptr this5))))"
    using a by (intro build_index_Returns) (elim conjE, assumption)+
  have bm: "Build env fuel sz writable fs p ds this h
         = move_to_gpu env (build_index env fuel sz writable fs (GetIndexName env ds) ds this h)"
    using assms by (rule Build_missing_file)
  have m: "MoveTreeToGPU env this5 0 (leaf_node_count this5) = (True, device)"
    using a by (elim conjE)
  show "Build env fuel sz writable fs p ds this h
                = Returns (True, this5, h3,
                    fs(GetIndexName env ds \<mapsto> dump_header this5 @ map NodeRec (serial sz [t])
                         @ map SoaRec (take (leaf_node_count this5) (node_soa_ptr this5))),
                    device)"
    by (simp only: bm b move_to_gpu_def build_outcome.case
          split_conv m Let_def not_True_eq_False if_False)
qed

text \<open>
  The build of the example tree from an empty object, with no file in the file
  system and every file creatable.
\<close>

theorem C8_witness:
  "GetIndexName example_env example_points = ''index''
   \<and> is_tree (tree_heap example_tree) example_tree
   \<and> length (bfs [example_tree]) = 4
   \<and> DumpFromFile 64 (\<lambda>name. None) ''index'' 4096 example_empty (\<lambda>a. None)
       = Some (False, example_empty, (\<lambda>a. None))
   \<and> Build example_env 4 64 any_name (\<lambda>name. None) 4096 example_points example_empty (\<lambda>a. None)
       = Returns (True, example_hybrid, tree_heap example_tree,
           (\<lambda>name. None)(''index'' \<mapsto> dump_header example_hybrid
              @ map NodeRec (serial 64 [example_tree])
              @ map SoaRec (take (leaf_node_count example_hybrid)
                              (node_soa_ptr example_hybrid))),
           node_soa_ptr example_hybrid)"
proof -
  let ?bs = "CreateBranches example_env example_points"
  let ?this3 = "example_empty\<lparr>level_node_count := [1, 3], total_node_count := 4,
                              leaf_node_count := 3, node_ptr := 0\<rparr>"
  have n: "GetIndexName example_env example_points = ''index''"
    by (simp add: example_env_def)
  have f: "(\<lambda>name. None :: (int \<times> int) item list option)
             (GetIndexName example_env example_points) = None"
    by simp
  have a1: "AssignHilbertIndexToBranches example_env ?bs = (True, ?bs)"
    by (simp add: example_env_def)
  have a2: "Sorter_Sort example_env ?bs = (True, ?bs)"
    by (simp add: example_env_def)
  have a3: "Top_Down example_env ?bs example_empty (\<lambda>a. None)
            = (True, ?this3, tree_heap example_tree)"
    by (simp add: example_env_def)
  have a4: "CopyBranchToNodeSOA example_env ?bs
              (?this3\<lparr>node_soa_ptr :=
                 replicate (leaf_node_count ?this3) (default_Node_SOA example_env)\<rparr>)
            = (True, example_hybrid)"
    by (simp add: example_env_def example_empty_def example_hybrid_def example_leaves_def)
  have a5: "is_tree (tree_heap example_tree) example_tree" by code_simp
  have a6: "node_ptr example_hybrid = addr_of example_tree" by code_simp
  have a7: "length (bfs [example_tree]) = 4" by code_simp
  have a8: "leaf_node_count example_hybrid \<le> length (node_soa_ptr example_hybrid)"
    by code_simp
  have a10: "any_name (GetIndexName example_env example_points)"
    by (simp add: any_name_def)
  have a9: "MoveTreeToGPU example_env example_hybrid 0 (leaf_node_count example_hybrid)
            = (True, node_soa_ptr example_hybrid)"
    by (simp add: example_env_def example_hybrid_def example_leaves_def)
  note c = C8_missing_file_leads_to_fresh_build
             [where writable = any_name and fs = "\<lambda>name. None" and env = example_env and ds = example_points
                and sz = 64 and p = 4096 and this = example_empty and h = "\<lambda>a. None"
                and fuel = 4, OF f]
  have c1: "DumpFromFile 64 (\<lambda>name. None) ''index'' 4096 example_empty (\<lambda>a. None)
       = Some (False, example_empty, (\<lambda>a. None))"
    using c n by simp
  have c3: "Build example_env 4 64 any_name (\<lambda>name. None) 4096 example_points example_empty (\<lambda>a. None)
       = Returns (True, example_hybrid, tree_heap example_tree,
           (\<lambda>name. None)(GetIndexName example_env example_points \<mapsto>
              dump_header example_hybrid
              @ map NodeRec (serial 64 [example_tree])
              @ map SoaRec (take (leaf_node_count example_hybrid)
                              (node_soa_ptr example_hybrid))),
           node_soa_ptr example_hybrid)"
  proof -
    have a7': "length (bfs [example_tree]) \<le> 4" using a7 by simp
    from c have "\<forall>bs1 bs2 this3 h3 ret this5 t device.
            AssignHilbertIndexToBranches example_env ?bs = (True, bs1)
            \<and> Sorter_Sort example_env bs1 = (True, bs2)
            \<and> Top_Down example_env bs2 example_empty (\<lambda>a. None) = (True, this3, h3)
            \<and> CopyBranchToNodeSOA example_env bs2
                 (this3\<lparr>node_soa_ptr :=
                    replicate (leaf_node_count this3) (default_Node_SOA example_env)\<rparr>)
               = (ret, this5)
            \<and> any_name (GetIndexName example_env example_points)
            \<and> is_tree h3 t \<and> node_ptr this5 = addr_of t \<and> length (bfs [t]) \<le> 4
            \<and> leaf_node_count this5 \<le> length (node_soa_ptr this5)
            \<and> MoveTreeToGPU example_env this5 0 (leaf_node_count this5) = (True, device)
            \<longrightarrow> Build example_env 4 64 any_name (\<lambda>name. None) 4096 example_points example_empty
                  (\<lambda>a. None)
                = Returns (True, this5, h3,
                    (\<lambda>name. None)(GetIndexName example_env example_points \<mapsto>
                       dump_header this5 @ map NodeRec (serial 64 [t])
                         @ map SoaRec (take (leaf_node_count this5) (node_soa_ptr this5))),
                    device)"
      by (elim conjE)
    then show ?thesis
      using a1 a2 a3 a4 a10 a5 a6 a7' a8 a9
      by (elim allE[where x = "?bs"] allE[where x = "?this3"]
            allE[where x = "tree_heap example_tree"] allE[where x = True]
            allE[where x = example_hybrid] allE[where x = example_tree]
            allE[where x = "node_soa_ptr example_hybrid"] impE) (intro conjI, assumption+)
  qed
  show ?thesis using n a5 a7 c1 c3 by (simp only: simp_thms)
qed

end

